theory Spec2Isabelle
  imports Complex_Main "HOL-Library.Sublist"
begin

section \<open>Python primitives used by \<^verbatim>\<open>plugins/functions/status.py\<close>\<close>

subsection \<open>Strings\<close>

text \<open>
  \<^verbatim>\<open>codename in text\<close>: the token occurs in the text as a contiguous block.
\<close>

fun contains :: "string \<Rightarrow> string \<Rightarrow> bool" where
  "contains old [] = (old = [])"
| "contains old (c # cs) = (prefix old (c # cs) \<or> contains old cs)"

text \<open>
  \<^verbatim>\<open>text.replace(old, new)\<close>: scan from the left and replace every non-overlapping
  occurrence. With an empty \<open>old\<close> Python inserts \<open>new\<close> before every character and at
  the end.
\<close>

fun replace :: "string \<Rightarrow> string \<Rightarrow> string \<Rightarrow> string" where
  "replace [] old new = (if old = [] then new else [])"
| "replace (c # cs) old new =
     (if old = [] then new @ c # replace cs old new
      else if prefix old (c # cs) then new @ replace (drop (length old) (c # cs)) old new
      else c # replace cs old new)"

text \<open>\<^verbatim>\<open>sep.join(parts)\<close>.\<close>

fun join :: "string \<Rightarrow> string list \<Rightarrow> string" where
  "join sep [] = []"
| "join sep [p] = p"
| "join sep (p # q # ps) = p @ sep @ join sep (q # ps)"

text \<open>\<^verbatim>\<open>str(n)\<close> for an integer: decimal digits, a minus sign for a negative one.\<close>

definition digit_char :: "int \<Rightarrow> char" where
  "digit_char d = ''0123456789'' ! nat d"

function digits :: "int \<Rightarrow> string" where
  "digits n = (if n < 10 then [digit_char n] else digits (n div 10) @ [digit_char (n mod 10)])"
  by pat_completeness auto
termination
  by (relation "measure nat") auto

declare digits.simps [simp del]

definition str_int :: "int \<Rightarrow> string" where
  "str_int n = (if n < 0 then CHR ''-'' # digits (- n) else digits n)"

text \<open>\<^verbatim>\<open>str(x)\<close> where \<open>x\<close> is an integer or \<^verbatim>\<open>None\<close>.\<close>

definition str_optional_int :: "int option \<Rightarrow> string" where
  "str_optional_int x = (case x of None \<Rightarrow> ''None'' | Some n \<Rightarrow> str_int n)"

subsection \<open>Exceptions\<close>

text \<open>
  The instances of \<^verbatim>\<open>Exception\<close> that the module can meet: those the interpreter
  raises in the modelled code, and whatever an external accessor raises. What is not an
  \<^verbatim>\<open>Exception\<close> (\<^verbatim>\<open>KeyboardInterrupt\<close>, \<^verbatim>\<open>SystemExit\<close>) is outside the model.
\<close>

datatype error = OverflowError | ZeroDivisionError | AttributeError | Exception string

subsection \<open>Floats\<close>

text \<open>
  A finite IEEE binary64 value is the rational it denotes. \<open>nearest_double\<close> rounds a
  rational to 53 significant bits, ties to even, with the subnormal quantum
  \<open>2 ^ -1074\<close> and no bound on the exponent; \<open>to_double\<close> is the conversion
  Python makes in \<^verbatim>\<open>int / int\<close> and in \<^verbatim>\<open>float(int)\<close>, which raises
  \<^verbatim>\<open>OverflowError\<close> when the rounded magnitude reaches \<open>2 ^ 1024\<close>.
\<close>

function bit_length :: "int \<Rightarrow> int" where
  "bit_length n = (if n \<le> 0 then 0 else 1 + bit_length (n div 2))"
  by pat_completeness auto
termination
  by (relation "measure nat") auto

declare bit_length.simps [simp del]

definition pow2 :: "int \<Rightarrow> rat" where
  "pow2 k = (if 0 \<le> k then 2 ^ nat k else 1 / 2 ^ nat (- k))"

text \<open>The exponent of a positive rational: \<open>pow2 (ilog2 x) \<le> x < pow2 (ilog2 x + 1)\<close>.\<close>

definition ilog2 :: "rat \<Rightarrow> int" where
  "ilog2 x = (if 1 \<le> x then bit_length \<lfloor>x\<rfloor> - 1 else - bit_length (\<lceil>1 / x\<rceil> - 1))"

definition round_half_even :: "rat \<Rightarrow> int" where
  "round_half_even r =
     (let f = \<lfloor>r\<rfloor>; d = r - of_int f
      in if d < 1 / 2 then f else if 1 / 2 < d then f + 1 else if even f then f else f + 1)"

definition nearest_double :: "rat \<Rightarrow> rat" where
  "nearest_double x =
     (if x = 0 then 0
      else let a = \<bar>x\<bar>; q = pow2 (max (ilog2 a - 52) (- 1074))
           in sgn x * (of_int (round_half_even (a / q)) * q))"

definition to_double :: "rat \<Rightarrow> error + rat" where
  "to_double x =
     (if 2 ^ 1024 \<le> \<bar>nearest_double x\<bar> then Inl OverflowError else Inr (nearest_double x))"

text \<open>
  The variable \<^verbatim>\<open>b\<close> of \<^verbatim>\<open>get_size\<close> holds an \<^verbatim>\<open>int\<close> until the first
  \<^verbatim>\<open>b /= factor\<close> and a \<^verbatim>\<open>float\<close> afterwards.
\<close>

datatype number = PyInt int | PyFloat rat

text \<open>\<^verbatim>\<open>b < factor\<close>: Python compares an int or a float with an int exactly.\<close>

fun less_than :: "number \<Rightarrow> int \<Rightarrow> bool" where
  "less_than (PyInt i) n = (i < n)"
| "less_than (PyFloat x) n = (x < of_int n)"

text \<open>
  \<^verbatim>\<open>b / n\<close> with an int divisor. \<^verbatim>\<open>int / int\<close> is the exact quotient correctly
  rounded, and raises \<^verbatim>\<open>OverflowError\<close> beyond the double range. \<^verbatim>\<open>float / int\<close>
  converts the divisor and divides as IEEE does; the quotient of a finite float by a
  non-zero integer is never larger than the float, so it stays in range.
\<close>

fun truediv :: "number \<Rightarrow> int \<Rightarrow> error + number" where
  "truediv (PyInt i) n =
     (if n = 0 then Inl ZeroDivisionError
      else map_sum id PyFloat (to_double (of_int i / of_int n)))"
| "truediv (PyFloat x) n =
     (if n = 0 then Inl ZeroDivisionError
      else case to_double (of_int n) of
             Inl e \<Rightarrow> Inl e
           | Inr m \<Rightarrow> Inr (PyFloat (nearest_double (x / m))))"

text \<open>
  \<^verbatim>\<open>x - y\<close> on two finite floats: the exact difference rounded. Beyond the double range
  the result is an infinity; float subtraction does not raise.
\<close>

datatype pyfloat = Finite rat | Plus_inf | Minus_inf

definition float_sub :: "rat \<Rightarrow> rat \<Rightarrow> pyfloat" where
  "float_sub x y =
     (let r = nearest_double (x - y)
      in if 2 ^ 1024 \<le> r then Plus_inf else if r \<le> - (2 ^ 1024) then Minus_inf else Finite r)"

text \<open>\<^verbatim>\<open>float(v)\<close>, as the format specification \<^verbatim>\<open>f\<close> applies it to an int.\<close>

fun float_of :: "number \<Rightarrow> error + rat" where
  "float_of (PyInt i) = to_double (of_int i)"
| "float_of (PyFloat x) = Inr x"

text \<open>
  \<^verbatim>\<open>f"{v:.<d>f}"\<close>: the exact value of the double rounded to \<open>d\<close> decimals, ties to
  even, written with all its integer digits and, when \<open>d > 0\<close>, a point and \<open>d\<close>
  decimals.
\<close>

definition zero_pad :: "nat \<Rightarrow> string \<Rightarrow> string" where
  "zero_pad d s = replicate (d - length s) CHR ''0'' @ s"

definition fixed_str :: "nat \<Rightarrow> rat \<Rightarrow> string" where
  "fixed_str d x =
     (let n = round_half_even (\<bar>x\<bar> * 10 ^ d)
      in (if x < 0 then ''-'' else '''') @ str_int (n div 10 ^ d) @
         (if d = 0 then '''' else CHR ''.'' # zero_pad d (str_int (n mod 10 ^ d))))"

definition format_f :: "nat \<Rightarrow> number \<Rightarrow> error + string" where
  "format_f d v = map_sum id (fixed_str d) (float_of v)"

section \<open>The host and the module's collaborators\<close>

text \<open>
  What \<^verbatim>\<open>psutil\<close>, \<^verbatim>\<open>distro\<close>, \<^verbatim>\<open>platform\<close>, \<^verbatim>\<open>socket\<close>, \<^verbatim>\<open>glovar\<close> and
  \<^verbatim>\<open>.etc\<close> give the module. Each call either returns a value or raises; \<open>events\<close>
  records every call made and every warning logged, in order.
\<close>

record scpufreq =
  current :: rat
  freq_min :: rat
  freq_max :: rat

record svmem =
  total :: int
  available :: int
  used :: int
  percent :: rat

datatype accessor =
    Cpu_count bool | Cpu_freq | Cpu_percent | Cpu_percent_percpu | Linux_distribution
  | Gethostname | Uname | Virtual_memory | Boot_time | Get_now
  | Get_readable_time string | Get_time_str pyfloat string | Lang string | Code string

datatype event = Call accessor | Warning string error

record host =
  cpu_count_result :: "bool \<Rightarrow> error + int option"
  cpu_freq_result :: "error + scpufreq option"
  cpu_percent_result :: "error + rat"
  cpu_percent_percpu_result :: "error + rat list"
  linux_distribution_result :: "error + string list"
  gethostname_result :: "error + string"
  uname_release_result :: "error + string"
  virtual_memory_result :: "error + svmem"
  boot_time_result :: "error + rat"
  get_now_result :: "error + int"
  get_readable_time_result :: "string \<Rightarrow> error + string"
  get_time_str_result :: "pyfloat \<Rightarrow> string \<Rightarrow> error + string"
  lang_result :: "string \<Rightarrow> error + string"
  code_result :: "string \<Rightarrow> error + string"
  float_str :: "rat \<Rightarrow> string"
  glovar_interval :: int
  glovar_format_date :: string
  glovar_format_time :: string
  glovar_report :: string
  events :: "event list"

text \<open>
  \<open>float_str\<close> is \<^verbatim>\<open>str\<close> on a float (the shortest decimal that reads back as the
  same double); the module only passes its result on, so it is a parameter here.
\<close>

subsection \<open>Computations that may raise\<close>

type_synonym 'a py = "host \<Rightarrow> (error + 'a) \<times> host"

definition py_return :: "'a \<Rightarrow> 'a py" where
  "py_return x = (\<lambda>s. (Inr x, s))"

definition py_raise :: "error \<Rightarrow> 'a py" where
  "py_raise e = (\<lambda>s. (Inl e, s))"

definition py_lift :: "error + 'a \<Rightarrow> 'a py" where
  "py_lift r = (\<lambda>s. (r, s))"

definition py_bind :: "'a py \<Rightarrow> ('a \<Rightarrow> 'b py) \<Rightarrow> 'b py" where
  "py_bind m f = (\<lambda>s. case m s of (Inl e, s') \<Rightarrow> (Inl e, s') | (Inr x, s') \<Rightarrow> f x s')"

text \<open>\<^verbatim>\<open>try: m  except Exception as e: h(e)\<close>.\<close>

definition try_except :: "'a py \<Rightarrow> (error \<Rightarrow> 'a py) \<Rightarrow> 'a py" where
  "try_except m h = (\<lambda>s. case m s of (Inl e, s') \<Rightarrow> h e s' | (Inr x, s') \<Rightarrow> (Inr x, s'))"

definition call :: "accessor \<Rightarrow> (host \<Rightarrow> error + 'a) \<Rightarrow> 'a py" where
  "call a f = (\<lambda>s. (f s, s\<lparr>events := events s @ [Call a]\<rparr>))"

definition logger_warning :: "string \<Rightarrow> error \<Rightarrow> unit py" where
  "logger_warning label e = (\<lambda>s. (Inr (), s\<lparr>events := events s @ [Warning label e]\<rparr>))"

definition cpu_count :: "bool \<Rightarrow> int option py" where
  "cpu_count logical = call (Cpu_count logical) (\<lambda>s. cpu_count_result s logical)"

definition cpu_freq :: "scpufreq option py" where
  "cpu_freq = call Cpu_freq cpu_freq_result"

definition cpu_percent :: "rat py" where
  "cpu_percent = call Cpu_percent cpu_percent_result"

definition cpu_percent_percpu :: "rat list py" where
  "cpu_percent_percpu = call Cpu_percent_percpu cpu_percent_percpu_result"

definition linux_distribution :: "string list py" where
  "linux_distribution = call Linux_distribution linux_distribution_result"

definition gethostname :: "string py" where
  "gethostname = call Gethostname gethostname_result"

definition uname_release :: "string py" where
  "uname_release = call Uname uname_release_result"

definition virtual_memory :: "svmem py" where
  "virtual_memory = call Virtual_memory virtual_memory_result"

definition boot_time :: "rat py" where
  "boot_time = call Boot_time boot_time_result"

definition get_now :: "int py" where
  "get_now = call Get_now get_now_result"

definition get_readable_time :: "string \<Rightarrow> string py" where
  "get_readable_time the_format =
     call (Get_readable_time the_format) (\<lambda>s. get_readable_time_result s the_format)"

definition get_time_str :: "pyfloat \<Rightarrow> string \<Rightarrow> string py" where
  "get_time_str secs the_format =
     call (Get_time_str secs the_format) (\<lambda>s. get_time_str_result s secs the_format)"

definition lang :: "string \<Rightarrow> string py" where
  "lang name = call (Lang name) (\<lambda>s. lang_result s name)"

definition code :: "string \<Rightarrow> string py" where
  "code t = call (Code t) (\<lambda>s. code_result s t)"

section \<open>The size formatter\<close>

definition factor :: int where
  "factor = 1024"

text \<open>
  The loop of \<^verbatim>\<open>get_size\<close>: \<^verbatim>\<open>for unit in [...]: if b < factor: break; b /= factor\<close>.
  It returns the value of \<^verbatim>\<open>b\<close> and of \<^verbatim>\<open>unit\<close> when the loop is left; after the
  last unit the loop variable keeps that unit.
\<close>

fun size_loop :: "number \<Rightarrow> string \<Rightarrow> string list \<Rightarrow> error + number \<times> string" where
  "size_loop b unit [] = Inr (b, unit)"
| "size_loop b unit (u # us) =
     (if less_than b factor then Inr (b, u)
      else case truediv b factor of
             Inl e \<Rightarrow> Inl e
           | Inr b' \<Rightarrow> size_loop b' u us)"

definition units :: "string list" where
  "units = ['''', ''K'', ''M'', ''G'', ''T'', ''P'']"

text \<open>The body of the \<^verbatim>\<open>try\<close> block of \<^verbatim>\<open>get_size\<close>.\<close>

definition size_text :: "int \<Rightarrow> string \<Rightarrow> error + string" where
  "size_text b sfx =
     (case size_loop (PyInt b) '''' units of
        Inl e \<Rightarrow> Inl e
      | Inr (v, unit) \<Rightarrow>
          (case format_f 2 v of
             Inl e \<Rightarrow> Inl e
           | Inr t \<Rightarrow> Inr (t @ '' '' @ unit @ sfx)))"

definition get_size :: "int \<Rightarrow> string \<Rightarrow> string py" where
  "get_size b sfx =
     try_except (py_lift (size_text b sfx))
       (\<lambda>e. py_bind (logger_warning ''Get size error'' e) (\<lambda>_. py_return ''''))"

section \<open>The field substitution functions\<close>

text \<open>
  All of them have one shape: \<^verbatim>\<open>result = text\<close>; inside \<^verbatim>\<open>try\<close>, return
  \<^verbatim>\<open>result\<close> when the token is absent, else compute \<^verbatim>\<open>status\<close> and assign
  \<^verbatim>\<open>result.replace(codename, status)\<close>; the handler logs a warning; return
  \<^verbatim>\<open>result\<close>. The assignment is the last statement of the block, so the handler
  always finds \<^verbatim>\<open>result = text\<close>.
\<close>

definition fill_placeholder :: "string \<Rightarrow> string py \<Rightarrow> string \<Rightarrow> string \<Rightarrow> string py" where
  "fill_placeholder codename status label text =
     try_except
       (if \<not> contains codename text then py_return text
        else py_bind status (\<lambda>st. py_return (replace text codename st)))
       (\<lambda>e. py_bind (logger_warning label e) (\<lambda>_. py_return text))"

definition cpu_count_logical_status :: "string py" where
  "cpu_count_logical_status = py_bind (cpu_count True) (\<lambda>n. py_return (str_optional_int n))"

definition get_cpu_count_logical :: "string \<Rightarrow> string py" where
  "get_cpu_count_logical =
     fill_placeholder ''$cpu_count_logical$'' cpu_count_logical_status
       ''Get cpu count logical error''"

definition cpu_count_physical_status :: "string py" where
  "cpu_count_physical_status = py_bind (cpu_count False) (\<lambda>n. py_return (str_optional_int n))"

definition get_cpu_count_physical :: "string \<Rightarrow> string py" where
  "get_cpu_count_physical =
     fill_placeholder ''$cpu_count_physical$'' cpu_count_physical_status
       ''Get cpu count physical error''"

text \<open>
  \<^verbatim>\<open>cpu_freq().current\<close>: \<^verbatim>\<open>cpu_freq()\<close> is \<^verbatim>\<open>None\<close> where the frequency cannot be
  read, and the attribute access raises \<^verbatim>\<open>AttributeError\<close>.
\<close>

definition freq_status :: "(scpufreq \<Rightarrow> rat) \<Rightarrow> nat \<Rightarrow> string py" where
  "freq_status field d =
     py_bind cpu_freq (\<lambda>r. case r of
         None \<Rightarrow> py_raise AttributeError
       | Some f \<Rightarrow> py_bind (py_lift (format_f d (PyFloat (field f))))
                    (\<lambda>t. py_return (t @ '' Mhz'')))"

definition get_cpu_freq_current :: "string \<Rightarrow> string py" where
  "get_cpu_freq_current =
     fill_placeholder ''$freq_current$'' (freq_status current 2) ''Get cpu freq current error''"

definition cpu_usage_total_status :: "string py" where
  "cpu_usage_total_status =
     py_bind cpu_percent (\<lambda>x s. py_return (float_str s x @ ''%'') s)"

definition get_cpu_usage_total :: "string \<Rightarrow> string py" where
  "get_cpu_usage_total =
     fill_placeholder ''$cpu_percent$'' cpu_usage_total_status ''Get cpu usage total error''"

text \<open>
  The loop of \<^verbatim>\<open>get_cpu_usage_per\<close> over the pairs \<^verbatim>\<open>(i, percent)\<close> of
  \<^verbatim>\<open>enumerate(cpu_percent(percpu=True, interval=1))\<close>; the fields of the f-string are
  evaluated from left to right.
\<close>

primrec per_core_loop :: "(nat \<times> rat) list \<Rightarrow> string \<Rightarrow> string py" where
  "per_core_loop [] status = py_return status"
| "per_core_loop (p # ps) status =
     py_bind (lang ''core'') (\<lambda>core.
     py_bind (lang ''colon'') (\<lambda>colon.
     py_bind (\<lambda>s. code (float_str s (snd p) @ ''%'') s) (\<lambda>c.
       per_core_loop ps
         (status @ replicate 4 (CHR 0x09) @ core @ [CHR 0x09] @ str_int (int (fst p) + 1)
                 @ colon @ c @ [CHR 0x0A]))))"

definition cpu_usage_per_status :: "string py" where
  "cpu_usage_per_status =
     py_bind cpu_percent_percpu (\<lambda>xs.
     py_bind (per_core_loop (enumerate 0 xs) '''') (\<lambda>status.
       py_return (if status \<noteq> [] then butlast status else status)))"

definition get_cpu_usage_per :: "string \<Rightarrow> string py" where
  "get_cpu_usage_per =
     fill_placeholder ''$cpu_percent_per$'' cpu_usage_per_status ''Get cpu usage per error''"

definition get_cpu_freq_max :: "string \<Rightarrow> string py" where
  "get_cpu_freq_max =
     fill_placeholder ''$freq_max$'' (freq_status freq_max 0) ''Get cpu freq max error''"

definition get_cpu_freq_min :: "string \<Rightarrow> string py" where
  "get_cpu_freq_min =
     fill_placeholder ''$freq_min$'' (freq_status freq_min 0) ''Get cpu freq min error''"

text \<open>\<^verbatim>\<open>" ".join(d for d in linux_distribution()[:-1])\<close>.\<close>

definition dist_status :: "string py" where
  "dist_status = py_bind linux_distribution (\<lambda>d. py_return (join '' '' (butlast d)))"

definition get_dist :: "string \<Rightarrow> string py" where
  "get_dist = fill_placeholder ''$dist$'' dist_status ''Get dist error''"

definition get_hostname :: "string \<Rightarrow> string py" where
  "get_hostname = fill_placeholder ''$hostname$'' gethostname ''Get hostname error''"

definition interval_status :: "string py" where
  "interval_status = (\<lambda>s. py_return (str_int (glovar_interval s)) s)"

definition get_interval :: "string \<Rightarrow> string py" where
  "get_interval = fill_placeholder ''$interval$'' interval_status ''Get interval error''"

definition get_kernel :: "string \<Rightarrow> string py" where
  "get_kernel = fill_placeholder ''$kernel$'' uname_release ''Get kernel error''"

definition last_status :: "string py" where
  "last_status = (\<lambda>s. get_readable_time (glovar_format_date s) s)"

definition get_last :: "string \<Rightarrow> string py" where
  "get_last = fill_placeholder ''$last$'' last_status ''Get last error''"

definition mem_size_status :: "(svmem \<Rightarrow> int) \<Rightarrow> string py" where
  "mem_size_status field = py_bind virtual_memory (\<lambda>m. get_size (field m) ''B'')"

definition get_mem_available :: "string \<Rightarrow> string py" where
  "get_mem_available =
     fill_placeholder ''$memory_available$'' (mem_size_status available)
       ''Get mem available error''"

definition mem_percent_status :: "string py" where
  "mem_percent_status =
     py_bind virtual_memory (\<lambda>m s. py_return (float_str s (percent m) @ ''%'') s)"

definition get_mem_percent :: "string \<Rightarrow> string py" where
  "get_mem_percent =
     fill_placeholder ''$memory_percent$'' mem_percent_status ''Get mem percent error''"

definition get_mem_total :: "string \<Rightarrow> string py" where
  "get_mem_total =
     fill_placeholder ''$memory_total$'' (mem_size_status total) ''Get mem total error''"

definition get_mem_used :: "string \<Rightarrow> string py" where
  "get_mem_used =
     fill_placeholder ''$memory_used$'' (mem_size_status used) ''Get mem used error''"

text \<open>
  \<^verbatim>\<open>get_now() - boot_time()\<close> is an int minus a float: the int is converted (which
  raises \<^verbatim>\<open>OverflowError\<close> when it is too large), then the floats are subtracted.
\<close>

definition up_time_status :: "string py" where
  "up_time_status =
     py_bind get_now (\<lambda>now.
     py_bind boot_time (\<lambda>boot.
     py_bind (py_lift (to_double (of_int now))) (\<lambda>now_f s.
       get_time_str (float_sub now_f boot) (glovar_format_time s) s)))"

definition get_up_time :: "string \<Rightarrow> string py" where
  "get_up_time = fill_placeholder ''$up_time$'' up_time_status ''Get up time error''"

section \<open>The orchestrator\<close>

text \<open>
  The \<^verbatim>\<open>try\<close> block of \<^verbatim>\<open>get_status\<close> is a sequence of assignments
  \<^verbatim>\<open>result = f(result)\<close>. Were a call to raise, \<^verbatim>\<open>result\<close> would keep its last
  value and the remaining calls would be skipped.
\<close>

fun run_passes ::
  "(string \<Rightarrow> string py) list \<Rightarrow> string \<Rightarrow> host \<Rightarrow> (string \<times> error option) \<times> host" where
  "run_passes [] result s = ((result, None), s)"
| "run_passes (f # fs) result s =
     (case f result s of
        (Inl e, s') \<Rightarrow> ((result, Some e), s')
      | (Inr r, s') \<Rightarrow> run_passes fs r s')"

definition status_with :: "(string \<Rightarrow> string py) list \<Rightarrow> string py" where
  "status_with fs s =
     (case run_passes fs (glovar_report s) s of
        ((result, None), s') \<Rightarrow> (Inr result, s')
      | ((result, Some e), s') \<Rightarrow>
          py_bind (logger_warning ''Get status error'' e) (\<lambda>_. py_return result) s')"

definition passes :: "(string \<Rightarrow> string py) list" where
  "passes =
     [get_interval, get_last,
      get_dist, get_kernel, get_hostname, get_up_time,
      get_cpu_count_physical, get_cpu_count_logical, get_cpu_freq_max, get_cpu_freq_min,
      get_cpu_freq_current, get_cpu_usage_total, get_cpu_usage_per,
      get_mem_total, get_mem_available, get_mem_used, get_mem_percent]"

definition get_status :: "string py" where
  "get_status = status_with passes"

section \<open>Notions used to state the properties\<close>

text \<open>
  \<^verbatim>\<open>text.split(old)\<close> for a non-empty separator: the stretches of text between the
  occurrences that \<^verbatim>\<open>replace\<close> finds.
\<close>

fun split_on :: "string \<Rightarrow> string \<Rightarrow> string list" where
  "split_on [] old = [[]]"
| "split_on (c # cs) old =
     (if old \<noteq> [] \<and> prefix old (c # cs) then [] # split_on (drop (length old) (c # cs)) old
      else case split_on cs old of
             [] \<Rightarrow> [[c]]
           | p # ps \<Rightarrow> (c # p) # ps)"

text \<open>
  The field substitution functions in the order in which \<^verbatim>\<open>get_status\<close> applies them,
  each with its token, the computation of its \<^verbatim>\<open>status\<close> and the label of its
  warning.
\<close>

definition placeholders :: "(string \<times> (string \<Rightarrow> string py) \<times> string py \<times> string) list" where
  "placeholders =
     [(''$interval$'', get_interval, interval_status, ''Get interval error''),
      (''$last$'', get_last, last_status, ''Get last error''),
      (''$dist$'', get_dist, dist_status, ''Get dist error''),
      (''$kernel$'', get_kernel, uname_release, ''Get kernel error''),
      (''$hostname$'', get_hostname, gethostname, ''Get hostname error''),
      (''$up_time$'', get_up_time, up_time_status, ''Get up time error''),
      (''$cpu_count_physical$'', get_cpu_count_physical, cpu_count_physical_status,
         ''Get cpu count physical error''),
      (''$cpu_count_logical$'', get_cpu_count_logical, cpu_count_logical_status,
         ''Get cpu count logical error''),
      (''$freq_max$'', get_cpu_freq_max, freq_status freq_max 0, ''Get cpu freq max error''),
      (''$freq_min$'', get_cpu_freq_min, freq_status freq_min 0, ''Get cpu freq min error''),
      (''$freq_current$'', get_cpu_freq_current, freq_status current 2,
         ''Get cpu freq current error''),
      (''$cpu_percent$'', get_cpu_usage_total, cpu_usage_total_status,
         ''Get cpu usage total error''),
      (''$cpu_percent_per$'', get_cpu_usage_per, cpu_usage_per_status,
         ''Get cpu usage per error''),
      (''$memory_total$'', get_mem_total, mem_size_status total, ''Get mem total error''),
      (''$memory_available$'', get_mem_available, mem_size_status available,
         ''Get mem available error''),
      (''$memory_used$'', get_mem_used, mem_size_status used, ''Get mem used error''),
      (''$memory_percent$'', get_mem_percent, mem_percent_status, ''Get mem percent error'')]"

text \<open>A host on which every accessor answers, and one on which every accessor raises.\<close>

definition sample_host :: host where
  "sample_host =
     \<lparr>cpu_count_result = (\<lambda>logical. Inr (Some (if logical then 4 else 2))),
      cpu_freq_result = Inr (Some \<lparr>current = 2400, freq_min = 800, freq_max = 3600\<rparr>),
      cpu_percent_result = Inr (25 / 2),
      cpu_percent_percpu_result = Inr [3 / 2, 20],
      linux_distribution_result = Inr [''Debian'', ''12'', ''bookworm''],
      gethostname_result = Inr ''host'',
      uname_release_result = Inr ''6.1.0'',
      virtual_memory_result =
        Inr \<lparr>total = 8589934592, available = 536870912, used = 1152, percent = 85 / 2\<rparr>,
      boot_time_result = Inr 1000,
      get_now_result = Inr 4600,
      get_readable_time_result = (\<lambda>the_format. Inr ''2020-01-01''),
      get_time_str_result = (\<lambda>secs the_format. Inr ''1:00:00''),
      lang_result = (\<lambda>name. Inr (if name = ''core'' then ''Core'' else '':'')),
      code_result = (\<lambda>t. Inr t),
      float_str = fixed_str 1,
      glovar_interval = 60,
      glovar_format_date = ''%Y-%m-%d'',
      glovar_format_time = ''%H:%M:%S'',
      glovar_report = ''Host: $hostname$'',
      events = []\<rparr>"

definition failing_host :: host where
  "failing_host =
     \<lparr>cpu_count_result = (\<lambda>logical. Inl (Exception ''cpu_count'')),
      cpu_freq_result = Inl (Exception ''cpu_freq''),
      cpu_percent_result = Inl (Exception ''cpu_percent''),
      cpu_percent_percpu_result = Inl (Exception ''cpu_percent''),
      linux_distribution_result = Inl (Exception ''linux_distribution''),
      gethostname_result = Inl (Exception ''gethostname''),
      uname_release_result = Inl (Exception ''uname''),
      virtual_memory_result = Inl (Exception ''virtual_memory''),
      boot_time_result = Inl (Exception ''boot_time''),
      get_now_result = Inl (Exception ''get_now''),
      get_readable_time_result = (\<lambda>the_format. Inl (Exception ''get_readable_time'')),
      get_time_str_result = (\<lambda>secs the_format. Inl (Exception ''get_time_str'')),
      lang_result = (\<lambda>name. Inl (Exception ''lang'')),
      code_result = (\<lambda>t. Inl (Exception ''code'')),
      float_str = fixed_str 1,
      glovar_interval = 60,
      glovar_format_date = ''%Y-%m-%d'',
      glovar_format_time = ''%H:%M:%S'',
      glovar_report = ''Host: $hostname$'',
      events = []\<rparr>"

text \<open>
  The line that \<^verbatim>\<open>get_cpu_usage_per\<close> builds for one core, without its newline: four
  tabs, the core label, a tab, the index, the colon glyph and the result of \<^verbatim>\<open>code\<close>.
\<close>

definition core_line :: "string \<Rightarrow> string \<Rightarrow> int \<Rightarrow> string \<Rightarrow> string" where
  "core_line core colon i c =
     replicate 4 (CHR 0x09) @ core @ [CHR 0x09] @ str_int i @ colon @ c"

text \<open>
  The template \<^verbatim>\<open>\t\t\t\t<core><index><colon><percent>%\<close> read literally: four tabs, the
  core label, the index, the colon glyph, the percentage and a percent sign.
\<close>

definition template_line :: "string \<Rightarrow> string \<Rightarrow> int \<Rightarrow> string \<Rightarrow> string" where
  "template_line core colon i p = replicate 4 (CHR 0x09) @ core @ str_int i @ colon @ p @ ''%''"

text \<open>
  The byte quantity that the text returned by \<^verbatim>\<open>get_size\<close> denotes: the number it
  prints (the value rounded to two decimals, as \<open>fixed_str\<close> prints it) times the
  multiple of its unit prefix, \<open>1024\<close> to the position of the prefix among the units.
\<close>

definition unit_bytes :: "string \<Rightarrow> rat" where
  "unit_bytes u = 1024 ^ length (takeWhile (\<lambda>v. v \<noteq> u) units)"

definition denoted_bytes :: "int \<Rightarrow> rat option" where
  "denoted_bytes b =
     (case size_loop (PyInt b) '''' units of
        Inl e \<Rightarrow> None
      | Inr (v, u) \<Rightarrow>
          (case float_of v of
             Inl e \<Rightarrow> None
           | Inr x \<Rightarrow> Some (sgn x * (of_int (round_half_even (\<bar>x\<bar> * 10 ^ 2)) / 10 ^ 2) * unit_bytes u)))"

section \<open>Occurrence of a token\<close>

lemma contains_sublist: "contains old t \<longleftrightarrow> sublist old t"
  by (induction t) (auto simp: sublist_Cons_right)

section \<open>The shape shared by the substitution functions\<close>

lemma fill_absent:
  "\<not> contains codename text \<Longrightarrow> fill_placeholder codename status label text s = (Inr text, s)"
  by (simp add: fill_placeholder_def try_except_def py_return_def)

lemma fill_error:
  "contains codename text \<Longrightarrow> status s = (Inl e, s') \<Longrightarrow>
   fill_placeholder codename status label text s =
     (Inr text, s'\<lparr>events := events s' @ [Warning label e]\<rparr>)"
  by (simp add: fill_placeholder_def try_except_def py_return_def py_bind_def logger_warning_def)

lemma fill_success:
  "contains codename text \<Longrightarrow> status s = (Inr v, s') \<Longrightarrow>
   fill_placeholder codename status label text s = (Inr (replace text codename v), s')"
  by (simp add: fill_placeholder_def try_except_def py_return_def py_bind_def)

lemma fill_returns: "\<exists>r s'. fill_placeholder codename status label text s = (Inr r, s')"
proof (cases "contains codename text")
  case False
  then show ?thesis using fill_absent by blast
next
  case True
  obtain r s' where rs: "status s = (r, s')" by (cases "status s")
  show ?thesis
  proof (cases r)
    case (Inl e)
    with True rs show ?thesis using fill_error by blast
  next
    case (Inr v)
    with True rs show ?thesis using fill_success by blast
  qed
qed

lemma placeholders_fill:
  "(codename, f, status, label) \<in> set placeholders \<Longrightarrow>
   f = fill_placeholder codename status label \<and> codename \<noteq> []"
  unfolding placeholders_def get_interval_def get_last_def get_dist_def get_kernel_def
    get_hostname_def get_up_time_def get_cpu_count_physical_def get_cpu_count_logical_def
    get_cpu_freq_max_def get_cpu_freq_min_def get_cpu_freq_current_def get_cpu_usage_total_def
    get_cpu_usage_per_def get_mem_total_def get_mem_available_def get_mem_used_def
    get_mem_percent_def
  by auto

lemma passes_placeholders: "passes = map (\<lambda>(codename, f, status, label). f) placeholders"
  by (simp add: passes_def placeholders_def)

section \<open>Splitting and joining\<close>

lemma prefix_hd_split_on: "prefix (hd (split_on t old)) t"
  by (induction t old rule: split_on.induct) (auto split: list.splits)

lemma split_on_nonempty: "split_on t old \<noteq> []"
  by (induction t old rule: split_on.induct) (auto split: list.splits)

lemma join_Cons: "ps \<noteq> [] \<Longrightarrow> join sep (p # ps) = p @ sep @ join sep ps"
  by (cases ps) auto

lemma join_Cons_Cons: "ps \<noteq> [] \<Longrightarrow> join sep ((c # p) # ps) = c # join sep (p # ps)"
  by (cases ps) auto

lemma join_split_on: "old \<noteq> [] \<Longrightarrow> join old (split_on t old) = t"
proof (induction t old rule: split_on.induct)
  case (1 old)
  then show ?case by simp
next
  case (2 c cs old)
  show ?case
  proof (cases "prefix old (c # cs)")
    case True
    define d where "d = drop (length old) (c # cs)"
    have eq: "old @ d = c # cs"
      using True unfolding d_def by (auto simp: prefix_def)
    have s: "split_on (c # cs) old = [] # split_on d old"
      using True "2.prems" unfolding d_def by (simp del: drop_Suc_Cons)
    have ih: "join old (split_on d old) = d"
      using "2.IH"(1) True "2.prems" unfolding d_def by simp
    have "join old (split_on (c # cs) old) = old @ join old (split_on d old)"
      unfolding s by (simp add: join_Cons split_on_nonempty)
    with ih eq show ?thesis by simp
  next
    case False
    with 2 have ih: "join old (split_on cs old) = cs" by simp
    obtain p ps where pps: "split_on cs old = p # ps"
      using split_on_nonempty[of cs old] by (cases "split_on cs old") auto
    show ?thesis
    proof (cases ps)
      case Nil
      with False pps ih show ?thesis by simp
    next
      case (Cons q qs)
      with False pps ih show ?thesis by simp
    qed
  qed
qed

lemma replace_join_split_on: "old \<noteq> [] \<Longrightarrow> replace t old new = join new (split_on t old)"
proof (induction t old new rule: replace.induct)
  case (1 old new)
  then show ?case by simp
next
  case (2 c cs old new)
  show ?case
  proof (cases "prefix old (c # cs)")
    case True
    with 2 show ?thesis
      by (simp add: join_Cons split_on_nonempty del: drop_Suc_Cons)
  next
    case False
    with 2 have ih: "replace cs old new = join new (split_on cs old)" by simp
    obtain p ps where pps: "split_on cs old = p # ps"
      using split_on_nonempty[of cs old] by (cases "split_on cs old") auto
    show ?thesis
    proof (cases ps)
      case Nil
      with False pps ih 2 show ?thesis by simp
    next
      case (Cons q qs)
      with False pps ih 2 show ?thesis by simp
    qed
  qed
qed

lemma split_on_pieces_free: "old \<noteq> [] \<Longrightarrow> p \<in> set (split_on t old) \<Longrightarrow> \<not> contains old p"
proof (induction t old arbitrary: p rule: split_on.induct)
  case (1 old)
  then show ?case by simp
next
  case (2 c cs old)
  show ?case
  proof (cases "prefix old (c # cs)")
    case True
    with 2 show ?thesis by (auto simp del: drop_Suc_Cons)
  next
    case False
    obtain q qs where qqs: "split_on cs old = q # qs"
      using split_on_nonempty[of cs old] by (cases "split_on cs old") auto
    have pre: "prefix q cs" using prefix_hd_split_on[of cs old] qqs by simp
    from 2 False qqs have "p = c # q \<or> p \<in> set qs" by simp
    then show ?thesis
    proof
      assume p: "p = c # q"
      have "\<not> prefix old (c # q)"
      proof
        assume "prefix old (c # q)"
        moreover have "prefix (c # q) (c # cs)" using pre by simp
        ultimately have "prefix old (c # cs)" by (rule prefix_order.trans)
        with False show False by simp
      qed
      moreover have "\<not> contains old q" using 2(2)[OF _ 2(3)] False qqs by simp
      ultimately show ?thesis using p by simp
    next
      assume "p \<in> set qs"
      then show ?thesis using 2(2)[OF _ 2(3)] False qqs by simp
    qed
  qed
qed

lemma join_empty_sep: "join [] ps = concat ps"
  by (induction "[] :: string" ps rule: join.induct) auto

lemma concat_lines: "ls \<noteq> [] \<Longrightarrow> concat (map (\<lambda>l. l @ sep) ls) = join sep ls @ sep"
  by (induction sep ls rule: join.induct) auto

text \<open>
  A value that is not empty and shares no character with the token separates the pieces:
  joining them with it cannot form the token again.
\<close>

lemma no_sublist_across:
  assumes p: "\<not> sublist old p" and r: "\<not> sublist old rest"
    and v: "v \<noteq> []" and d: "set v \<inter> set old = {}" and o: "old \<noteq> []"
  shows "\<not> sublist old (p @ v @ rest)"
proof
  assume "sublist old (p @ v @ rest)"
  then consider "sublist old p" | "sublist old (v @ rest)"
    | x1 x2 where "old = x1 @ x2" "suffix x1 p" "prefix x2 (v @ rest)"
    by (auto simp: sublist_append)
  then show False
  proof cases
    case 1
    with p show False by simp
  next
    case 2
    then consider "sublist old v" | "sublist old rest"
      | y1 y2 where "old = y1 @ y2" "suffix y1 v" "prefix y2 rest"
      by (auto simp: sublist_append)
    then show False
    proof cases
      case 1
      then have "set old \<subseteq> set v" by (rule set_mono_sublist)
      with d o show False by (cases old) auto
    next
      case 2
      with r show False by simp
    next
      case 3
      show False
      proof (cases y1)
        case Nil
        with 3 have "prefix old rest" by simp
        with r show False by auto
      next
        case (Cons a as)
        with 3 have "a \<in> set old" by simp
        moreover from 3 Cons have "a \<in> set v" using set_mono_suffix[of y1 v] by auto
        ultimately show False using d by auto
      qed
    qed
  next
    case 3
    show False
    proof (cases x2)
      case Nil
      with 3 have "suffix old p" by simp
      with p show False by auto
    next
      case (Cons a as)
      obtain b bs where vb: "v = b # bs" using v by (cases v) auto
      from 3 Cons vb have "a = b" by simp
      moreover from 3 Cons have "a \<in> set old" by simp
      ultimately show False using d vb by auto
    qed
  qed
qed

lemma no_sublist_join:
  "(\<forall>p \<in> set ps. \<not> sublist old p) \<Longrightarrow> v \<noteq> [] \<Longrightarrow> set v \<inter> set old = {} \<Longrightarrow> old \<noteq> [] \<Longrightarrow>
   \<not> sublist old (join v ps)"
proof (induction v ps rule: join.induct)
  case (1 sep)
  then show ?case by simp
next
  case (2 sep p)
  then show ?case by simp
next
  case (3 sep p q ps)
  then have "\<not> sublist old p" and "\<not> sublist old (join sep (q # ps))" by simp_all
  then have "\<not> sublist old (p @ sep @ join sep (q # ps))"
    using 3 by (intro no_sublist_across) simp_all
  then show ?case by simp
qed

lemma token_gone:
  "old \<noteq> [] \<Longrightarrow> v \<noteq> [] \<Longrightarrow> set v \<inter> set old = {} \<Longrightarrow> \<not> contains old (replace t old v)"
  using no_sublist_join[of "split_on t old" old v] split_on_pieces_free[of old _ t]
  by (simp add: replace_join_split_on contains_sublist)

section \<open>The orchestrator's loop\<close>

lemma run_passes_unchanged:
  "(\<forall>f \<in> set fs. f text s = (Inr text, s)) \<Longrightarrow> run_passes fs text s = ((text, None), s)"
  by (induction fs) auto

lemma run_passes_append_raise:
  "run_passes fs t s = ((r, None), s1) \<Longrightarrow> g r s1 = (Inl e, s2) \<Longrightarrow>
   run_passes (fs @ g # gs) t s = ((r, Some e), s2)"
proof (induction fs arbitrary: t s)
  case Nil
  then show ?case by simp
next
  case (Cons f fs)
  obtain x s' where fx: "f t s = (x, s')" by (cases "f t s")
  show ?case
  proof (cases x)
    case (Inl e')
    with Cons.prems fx show ?thesis by simp
  next
    case (Inr u)
    with Cons fx show ?thesis by simp
  qed
qed

lemma run_passes_total:
  "(\<forall>f \<in> set fs. \<forall>t s. \<exists>r s'. f t s = (Inr r, s')) \<Longrightarrow>
   \<exists>r s'. run_passes fs t s = ((r, None), s')"
proof (induction fs arbitrary: t s)
  case Nil
  then show ?case by simp
next
  case (Cons f fs)
  then obtain r s' where "f t s = (Inr r, s')" by (meson list.set_intros(1))
  moreover obtain r' s'' where "run_passes fs r s' = ((r', None), s'')"
    using Cons by (meson list.set_intros(2))
  ultimately show ?case by simp
qed

lemma status_with_returns:
  "\<exists>r s'. status_with fs s = (Inr r, s') \<and> fst (fst (run_passes fs (glovar_report s) s)) = r"
proof -
  obtain r x s1 where rp: "run_passes fs (glovar_report s) s = ((r, x), s1)"
    by (metis surj_pair)
  show ?thesis
    by (cases x) (simp_all add: status_with_def rp py_bind_def logger_warning_def py_return_def)
qed

lemma passes_return: "f \<in> set passes \<Longrightarrow> \<exists>r s'. f t s = (Inr r, s')"
proof -
  assume "f \<in> set passes"
  then obtain codename status label where "(codename, f, status, label) \<in> set placeholders"
    unfolding passes_placeholders by auto
  then have "f = fill_placeholder codename status label" using placeholders_fill by blast
  then show ?thesis using fill_returns by simp
qed

section \<open>Rounding to a double\<close>

lemma pow2_pos: "0 < pow2 k"
  by (simp add: pow2_def)

lemma pow2_nat: "pow2 (int n) = 2 ^ n"
  by (simp add: pow2_def)

lemma pow2_powi: "pow2 k = 2 powi k"
  by (simp add: pow2_def power_int_def power_one_over inverse_eq_divide)

lemma pow2_add: "pow2 (a + b) = pow2 a * pow2 b"
  by (simp add: pow2_powi power_int_add)

lemma pow2_shift: "2 ^ n * pow2 (int k - int n) = 2 ^ k"
  using pow2_add[of "int n" "int k - int n"] by (simp add: pow2_nat)

lemma bit_length_bounds:
  "0 < n \<Longrightarrow> 1 \<le> bit_length n \<and> 2 ^ nat (bit_length n - 1) \<le> n \<and> n < 2 ^ nat (bit_length n)"
proof (induction n rule: bit_length.induct)
  case (1 n)
  show ?case
  proof (cases "n = 1")
    case True
    then show ?thesis by (simp add: bit_length.simps[of 1] bit_length.simps[of 0])
  next
    case False
    with 1(2) have pos: "0 < n div 2" by simp
    define m where "m = nat (bit_length (n div 2) - 1)"
    from 1(1)[OF _ pos] 1(2)
    have ih: "1 \<le> bit_length (n div 2)" "2 ^ nat (bit_length (n div 2) - 1) \<le> n div 2"
      "n div 2 < 2 ^ nat (bit_length (n div 2))" by simp_all
    have bm: "bit_length (n div 2) = int m + 1" using ih(1) by (simp add: m_def)
    have bn: "bit_length n = int m + 2"
      using 1(2) bm by (simp add: bit_length.simps[of n])
    have lo: "(2::int) ^ m \<le> n div 2" using ih(2) by (simp add: m_def)
    have hi: "n div 2 < (2::int) ^ Suc m" using ih(3) bm by (simp add: nat_add_distrib)
    have "nat (bit_length n - 1) = Suc m" "nat (bit_length n) = Suc (Suc m)"
      using bn by simp_all
    moreover have "(2::int) ^ Suc m \<le> n" using lo by simp
    moreover have "n < (2::int) ^ Suc (Suc m)" using hi by simp
    moreover have "1 \<le> bit_length n" using bn by simp
    ultimately show ?thesis by simp
  qed
qed

lemma bit_length_unique:
  assumes "0 < n" "2 ^ k \<le> n" "n < 2 ^ Suc k"
  shows "bit_length n = int k + 1"
proof -
  define m where "m = nat (bit_length n - 1)"
  from bit_length_bounds[OF assms(1)]
  have b: "1 \<le> bit_length n" "(2::int) ^ m \<le> n" "n < (2::int) ^ nat (bit_length n)"
    by (simp_all add: m_def)
  have bn: "nat (bit_length n) = Suc m" using b(1) by (simp add: m_def)
  have "(2::int) ^ m < 2 ^ Suc k" using b(2) assms(3) by linarith
  then have "m < Suc k" by (simp only: power_strict_increasing_iff)
  moreover have b3: "n < (2::int) ^ Suc m" using b(3) by (simp only: bn)
  have "(2::int) ^ k < 2 ^ Suc m" using b3 assms(2) by linarith
  then have "k < Suc m" by (simp only: power_strict_increasing_iff)
  ultimately have "m = k" by simp
  then show ?thesis using b(1) by (simp add: m_def)
qed

lemma ilog2_unique:
  assumes "2 ^ k \<le> x" "x < 2 ^ Suc k"
  shows "ilog2 x = int k"
proof -
  have x1: "1 \<le> x" using assms(1) one_le_power[of "2::rat" k] by linarith
  have "of_int (2 ^ k) \<le> x" using assms(1) by simp
  then have lo: "(2::int) ^ k \<le> \<lfloor>x\<rfloor>" by (simp only: le_floor_iff)
  have "x < of_int (2 ^ Suc k)" using assms(2) by simp
  then have hi: "\<lfloor>x\<rfloor> < (2::int) ^ Suc k" by (simp only: floor_less_iff)
  have pos: "0 < \<lfloor>x\<rfloor>" using x1 by simp
  from bit_length_unique[OF pos lo hi] x1 show ?thesis by (simp add: ilog2_def)
qed

lemma ilog2_bounds:
  fixes x :: rat
  assumes "1 \<le> x"
  shows "\<exists>k. 2 ^ k \<le> x \<and> x < 2 ^ Suc k"
proof -
  have pos: "0 < \<lfloor>x\<rfloor>" using assms by simp
  define m where "m = nat (bit_length \<lfloor>x\<rfloor> - 1)"
  from bit_length_bounds[OF pos]
  have b: "1 \<le> bit_length \<lfloor>x\<rfloor>" "(2::int) ^ m \<le> \<lfloor>x\<rfloor>" "\<lfloor>x\<rfloor> < (2::int) ^ nat (bit_length \<lfloor>x\<rfloor>)"
    by (simp_all add: m_def)
  have bn: "nat (bit_length \<lfloor>x\<rfloor>) = Suc m" using b(1) by (simp add: m_def)
  have "of_int ((2::int) ^ m) \<le> x" using b(2) by (simp only: le_floor_iff)
  then have lo: "2 ^ m \<le> x" by simp
  have "x < of_int ((2::int) ^ Suc m)" using b(3) bn by (simp only: floor_less_iff)
  then have hi: "x < 2 ^ Suc m" by simp
  from lo hi show ?thesis by blast
qed

lemma rhe_of_int: "round_half_even (of_int n) = n"
  by (simp add: round_half_even_def)

lemma rhe_lower: "\<lfloor>x\<rfloor> \<le> round_half_even x"
  by (simp add: round_half_even_def Let_def)

lemma rhe_upper: "round_half_even x \<le> \<lfloor>x\<rfloor> + 1"
  by (simp add: round_half_even_def Let_def)

lemma rhe_mono:
  assumes "x \<le> y"
  shows "round_half_even x \<le> round_half_even y"
proof (cases "\<lfloor>x\<rfloor> = \<lfloor>y\<rfloor>")
  case True
  have "x - of_int \<lfloor>y\<rfloor> \<le> y - of_int \<lfloor>y\<rfloor>" using assms by simp
  then show ?thesis using True by (auto simp: round_half_even_def Let_def)
next
  case False
  have "\<lfloor>x\<rfloor> \<le> \<lfloor>y\<rfloor>" using assms by (rule floor_mono)
  with False have "\<lfloor>x\<rfloor> + 1 \<le> \<lfloor>y\<rfloor>" by simp
  with rhe_upper[of x] rhe_lower[of y] show ?thesis by linarith
qed

lemma rhe_close: "of_int (round_half_even r) \<le> r + 1 / 2"
proof -
  have f: "of_int \<lfloor>r\<rfloor> \<le> r" by simp
  have "round_half_even r = \<lfloor>r\<rfloor> \<or>
      (round_half_even r = \<lfloor>r\<rfloor> + 1 \<and> 1 / 2 \<le> r - of_int \<lfloor>r\<rfloor>)"
    by (auto simp: round_half_even_def Let_def)
  then show ?thesis
  proof (elim disjE conjE)
    assume "round_half_even r = \<lfloor>r\<rfloor>"
    then show ?thesis using of_int_floor_le[of r] by linarith
  next
    assume a: "round_half_even r = \<lfloor>r\<rfloor> + 1" "1 / 2 \<le> r - of_int \<lfloor>r\<rfloor>"
    have "of_int (\<lfloor>r\<rfloor> + 1) \<le> r + 1 / 2" using a(2) by simp
    then show ?thesis by (simp only: a(1))
  qed
qed

lemma nearest_double_eq:
  assumes "2 ^ k \<le> x" "x < 2 ^ Suc k"
  shows "nearest_double x =
    of_int (round_half_even (x / pow2 (int k - 52))) * pow2 (int k - 52)"
proof -
  have x1: "1 \<le> x" using assms(1) one_le_power[of "2::rat" k] by linarith
  have "ilog2 \<bar>x\<bar> = int k" using ilog2_unique[OF assms] x1 by simp
  then show ?thesis using x1 by (simp add: nearest_double_def Let_def max_def)
qed

lemma mantissa_bounds:
  assumes "2 ^ k \<le> x" "x < 2 ^ Suc k"
  shows "2 ^ 52 \<le> round_half_even (x / pow2 (int k - 52))"
    "round_half_even (x / pow2 (int k - 52)) \<le> 2 ^ 53"
proof -
  define q where "q = pow2 (int k - 52)"
  have q: "0 < q" by (simp add: q_def pow2_pos)
  have sh: "2 ^ 52 * q = 2 ^ k" using pow2_shift[of 52 k] by (simp add: q_def)
  have sh': "2 ^ 53 * q = 2 ^ Suc k" using sh by simp
  have "2 ^ 52 * q \<le> x" using sh assms(1) by simp
  then have "2 ^ 52 \<le> x / q" using q by (simp add: pos_le_divide_eq)
  then have "of_int (2 ^ 52) \<le> x / q" by simp
  then have "round_half_even (of_int (2 ^ 52)) \<le> round_half_even (x / q)" by (rule rhe_mono)
  then show "2 ^ 52 \<le> round_half_even (x / pow2 (int k - 52))"
    by (simp only: rhe_of_int q_def)
  have "x \<le> 2 ^ 53 * q" using sh' assms(2) by simp
  then have "x / q \<le> 2 ^ 53" using q by (simp add: pos_divide_le_eq)
  then have "x / q \<le> of_int (2 ^ 53)" by simp
  then have "round_half_even (x / q) \<le> round_half_even (of_int (2 ^ 53))" by (rule rhe_mono)
  then show "round_half_even (x / pow2 (int k - 52)) \<le> 2 ^ 53"
    by (simp only: rhe_of_int q_def)
qed

lemma nearest_double_bounds:
  assumes "2 ^ k \<le> x" "x < 2 ^ Suc k"
  shows "2 ^ k \<le> nearest_double x" "nearest_double x \<le> 2 ^ Suc k"
proof -
  define q where "q = pow2 (int k - 52)"
  define n where "n = round_half_even (x / q)"
  have q: "0 < q" by (simp add: q_def pow2_pos)
  have sh: "2 ^ 52 * q = 2 ^ k" using pow2_shift[of 52 k] by (simp add: q_def)
  have sh': "2 ^ 53 * q = 2 ^ Suc k" using sh by simp
  have nd: "nearest_double x = of_int n * q"
    using nearest_double_eq[OF assms] by (simp add: q_def n_def)
  have lo: "2 ^ 52 \<le> n" and hi: "n \<le> 2 ^ 53"
    using mantissa_bounds[OF assms] by (simp_all add: n_def q_def)
  have "of_int (2 ^ 52) \<le> (of_int n :: rat)" using lo by (simp only: of_int_le_iff)
  then have "2 ^ 52 * q \<le> of_int n * q" using q by simp
  then show "2 ^ k \<le> nearest_double x" using sh nd by simp
  have "(of_int n :: rat) \<le> of_int (2 ^ 53)" using hi by (simp only: of_int_le_iff)
  then have "of_int n * q \<le> 2 ^ 53 * q" using q by simp
  then show "nearest_double x \<le> 2 ^ Suc k" using sh' nd by simp
qed

lemma nearest_double_mono:
  assumes "1 \<le> x" "x \<le> y"
  shows "nearest_double x \<le> nearest_double y"
proof -
  obtain k where k: "2 ^ k \<le> x" "x < 2 ^ Suc k" using ilog2_bounds[OF assms(1)] by blast
  have "1 \<le> y" using assms by simp
  then obtain m where m: "2 ^ m \<le> y" "y < 2 ^ Suc m" using ilog2_bounds by blast
  have "(2::rat) ^ k < 2 ^ Suc m" using k(1) assms(2) m(2) by linarith
  then have km: "k < Suc m" by (simp only: power_strict_increasing_iff)
  show ?thesis
  proof (cases "k = m")
    case True
    define q where "q = pow2 (int k - 52)"
    have q: "0 < q" by (simp add: q_def pow2_pos)
    have "x / q \<le> y / q" using assms(2) q by (simp add: divide_right_mono)
    then have "round_half_even (x / q) \<le> round_half_even (y / q)" by (rule rhe_mono)
    then have "(of_int (round_half_even (x / q)) :: rat) \<le> of_int (round_half_even (y / q))"
      by (simp only: of_int_le_iff)
    then have "of_int (round_half_even (x / q)) * q \<le> of_int (round_half_even (y / q)) * q"
      using q by simp
    then show ?thesis
      using nearest_double_eq[OF k] nearest_double_eq[OF m] True by (simp add: q_def)
  next
    case False
    then have "Suc k \<le> m" using km by simp
    then have "(2::rat) ^ Suc k \<le> 2 ^ m" by (rule power_increasing) simp
    then show ?thesis
      using nearest_double_bounds(2)[OF k] nearest_double_bounds(1)[OF m] by linarith
  qed
qed

lemma pow2_10: "pow2 10 = 1024"
  by (simp add: pow2_def)

lemma nearest_double_scale:
  assumes "1024 \<le> x"
  shows "nearest_double (x / 1024) = nearest_double x / 1024"
proof -
  have "1 \<le> x / 1024" using assms by simp
  then obtain j where j: "2 ^ j \<le> x / 1024" "x / 1024 < 2 ^ Suc j"
    using ilog2_bounds by blast
  have p: "(2::rat) ^ (j + 10) = 2 ^ j * 1024" by (simp add: power_add)
  have k: "2 ^ (j + 10) \<le> x" "x < 2 ^ Suc (j + 10)"
    using j unfolding power_Suc p by simp_all
  have "int (j + 10) - 52 = 10 + (int j - 52)" by simp
  then have qq: "pow2 (int (j + 10) - 52) = 1024 * pow2 (int j - 52)"
    using pow2_add[of 10 "int j - 52"] by (simp only: pow2_10)
  have d: "x / (1024 * pow2 (int j - 52)) = x / 1024 / pow2 (int j - 52)" by simp
  show ?thesis
    unfolding nearest_double_eq[OF j] nearest_double_eq[OF k] qq d by simp
qed

lemma nearest_double_idem:
  assumes "1 \<le> x"
  shows "nearest_double (nearest_double x) = nearest_double x"
proof -
  obtain k where k: "2 ^ k \<le> x" "x < 2 ^ Suc k" using ilog2_bounds[OF assms] by blast
  define q where "q = pow2 (int k - 52)"
  define n where "n = round_half_even (x / q)"
  have q: "0 < q" by (simp add: q_def pow2_pos)
  have sh: "2 ^ 52 * q = 2 ^ k" using pow2_shift[of 52 k] by (simp add: q_def)
  have sh': "2 ^ 53 * q = 2 ^ Suc k" using sh by simp
  have nd: "nearest_double x = of_int n * q"
    using nearest_double_eq[OF k] by (simp add: q_def n_def)
  have hi: "n \<le> 2 ^ 53" using mantissa_bounds(2)[OF k] by (simp add: n_def q_def)
  show ?thesis
  proof (cases "n = 2 ^ 53")
    case True
    then have y: "nearest_double x = 2 ^ Suc k" using nd sh' by simp
    define q' where "q' = pow2 (int (Suc k) - 52)"
    have q': "0 < q'" by (simp add: q'_def pow2_pos)
    have s2: "2 ^ 52 * q' = 2 ^ Suc k" using pow2_shift[of 52 "Suc k"] by (simp add: q'_def)
    then have "(2 ^ Suc k :: rat) / q' = of_int (2 ^ 52)" using q' by (simp add: field_simps)
    then have r: "round_half_even (2 ^ Suc k / q') = 2 ^ 52" by (simp only: rhe_of_int)
    have "nearest_double (2 ^ Suc k) = of_int (round_half_even (2 ^ Suc k / q')) * q'"
      unfolding q'_def by (rule nearest_double_eq) simp_all
    then show ?thesis unfolding y r using s2 by simp
  next
    case False
    with hi have "n < 2 ^ 53" by simp
    then have "(of_int n :: rat) < of_int (2 ^ 53)" by (simp only: of_int_less_iff)
    then have "of_int n * q < 2 ^ 53 * q" using q by simp
    then have up: "nearest_double x < 2 ^ Suc k" using nd sh' by simp
    have lo: "2 ^ k \<le> nearest_double x" by (rule nearest_double_bounds(1)[OF k])
    have "nearest_double x / q = of_int n" using nd q by simp
    then have "round_half_even (nearest_double x / q) = n" by (simp only: rhe_of_int)
    then show ?thesis
      using nearest_double_eq[OF lo up] nd by (simp add: q_def)
  qed
qed

lemma nearest_double_in_range:
  assumes "1 \<le> x" "x < 2 ^ 1024 - 2 ^ 970"
  shows "nearest_double x < 2 ^ 1024"
proof -
  obtain k where k: "2 ^ k \<le> x" "x < 2 ^ Suc k" using ilog2_bounds[OF assms(1)] by blast
  have "(0::rat) < 2 ^ 970" by simp
  then have "(2::rat) ^ k < 2 ^ 1024" using k(1) assms(2) by linarith
  then have k1: "k < 1024" by (simp only: power_strict_increasing_iff)
  show ?thesis
  proof (cases "k = 1023")
    case True
    define q where "q = pow2 (int k - 52)"
    have q: "0 < q" by (simp add: q_def pow2_pos)
    have sh: "2 ^ 53 * q = 2 ^ 1024"
      using pow2_shift[of 52 1023] True by (simp add: q_def)
    have hq: "q / 2 = 2 ^ 970" using sh q by (simp add: field_simps)
    have "x < 2 ^ 53 * q - q / 2" using assms(2) sh hq by simp
    then have "x < (2 ^ 53 - 1 / 2) * q" by (simp add: algebra_simps)
    then have "x / q < 2 ^ 53 - 1 / 2" using q by (simp add: pos_divide_less_eq)
    then have "of_int (round_half_even (x / q)) < (2 ^ 53 :: rat)"
      using rhe_close[of "x / q"] by linarith
    then have "of_int (round_half_even (x / q)) * q < 2 ^ 53 * q" using q by simp
    then show ?thesis using nearest_double_eq[OF k] sh by (simp add: q_def)
  next
    case False
    with k1 have "Suc k \<le> 1023" by simp
    then have "(2::rat) ^ Suc k \<le> 2 ^ 1023" by (rule power_increasing) simp
    moreover have "(2::rat) ^ 1023 < 2 ^ 1024" by simp
    ultimately show ?thesis using nearest_double_bounds(2)[OF k] by linarith
  qed
qed

lemma nearest_double_of_int:
  assumes "1 \<le> n" "n < 2 ^ 53"
  shows "nearest_double (of_int n) = of_int n"
proof -
  have "(1::rat) \<le> of_int n" using assms(1) by simp
  then obtain k where k: "2 ^ k \<le> (of_int n :: rat)" "(of_int n :: rat) < 2 ^ Suc k"
    using ilog2_bounds by blast
  have "(of_int n :: rat) < of_int (2 ^ 53)" using assms(2) by (simp only: of_int_less_iff)
  then have lt: "(of_int n :: rat) < 2 ^ 53" by simp
  have "(2::rat) ^ k < 2 ^ 53" using k(1) lt by linarith
  then have k52: "k < 53" by (simp only: power_strict_increasing_iff)
  define q where "q = pow2 (int k - 52)"
  have q: "0 < q" by (simp add: q_def pow2_pos)
  have "int 0 - int (52 - k) = int k - 52" using k52 by simp
  then have one: "2 ^ (52 - k) * q = 1" using pow2_shift[of "52 - k" 0] by (simp add: q_def)
  then have "of_int n / q = of_int n * 2 ^ (52 - k)" using q by (simp add: field_simps)
  also have "\<dots> = of_int (n * 2 ^ (52 - k))" by simp
  finally have "round_half_even (of_int n / q) = n * 2 ^ (52 - k)" by (simp only: rhe_of_int)
  then have "nearest_double (of_int n) = of_int n * (2 ^ (52 - k) * q)"
    using nearest_double_eq[OF k] by (simp add: q_def)
  then show ?thesis using one by simp
qed

section \<open>The loop of the size formatter\<close>

lemma to_double_factor: "to_double (of_int factor) = Inr 1024"
proof -
  have "nearest_double (of_int 1024) = of_int 1024" by (rule nearest_double_of_int) simp_all
  then show ?thesis by (simp add: to_double_def factor_def)
qed

lemma truediv_float:
  assumes "nearest_double y = y" "1024 \<le> y"
  shows "truediv (PyFloat y) factor = Inr (PyFloat (y / 1024))"
    and "nearest_double (y / 1024) = y / 1024"
proof -
  show d: "nearest_double (y / 1024) = y / 1024"
    using nearest_double_scale[OF assms(2)] assms(1) by simp
  have "factor \<noteq> 0" by (simp add: factor_def)
  then show "truediv (PyFloat y) factor = Inr (PyFloat (y / 1024))"
    using d by (simp add: to_double_factor)
qed

lemma size_loop_float:
  "nearest_double y = y \<Longrightarrow> 1 \<le> y \<Longrightarrow>
   \<exists>j \<le> length us.
     size_loop (PyFloat y) u us =
       Inr (PyFloat (y / 1024 ^ j), (u # us) ! (if j < length us then Suc j else length us)) \<and>
     (j < length us \<longrightarrow> y / 1024 ^ j < 1024) \<and>
     (\<forall>i < j. 1024 \<le> y / 1024 ^ i)"
proof (induction us arbitrary: y u)
  case Nil
  show ?case by (rule exI[of _ 0]) simp
next
  case (Cons a rest)
  show ?case
  proof (cases "y < 1024")
    case True
    show ?thesis by (rule exI[of _ 0]) (simp add: True factor_def)
  next
    case False
    then have y: "1024 \<le> y" by simp
    have t: "truediv (PyFloat y) factor = Inr (PyFloat (y / 1024))"
      and d: "nearest_double (y / 1024) = y / 1024"
      using truediv_float[OF Cons.prems(1) y] by simp_all
    have one: "1 \<le> y / 1024" using y by simp
    from Cons.IH[OF d one, of a] obtain j where j: "j \<le> length rest"
      "size_loop (PyFloat (y / 1024)) a rest =
         Inr (PyFloat (y / 1024 / 1024 ^ j),
              (a # rest) ! (if j < length rest then Suc j else length rest))"
      "j < length rest \<longrightarrow> y / 1024 / 1024 ^ j < 1024"
      "\<forall>i < j. 1024 \<le> y / 1024 / 1024 ^ i" by blast
    have step: "size_loop (PyFloat y) u (a # rest) = size_loop (PyFloat (y / 1024)) a rest"
      using False t by (simp add: factor_def)
    have all: "\<forall>i < Suc j. 1024 \<le> y / 1024 ^ i"
    proof (intro allI impI)
      fix i assume "i < Suc j"
      show "1024 \<le> y / 1024 ^ i"
      proof (cases i)
        case 0
        then show ?thesis using y by simp
      next
        case (Suc i')
        with \<open>i < Suc j\<close> have "i' < j" by simp
        with j(4) have "1024 \<le> y / 1024 / 1024 ^ i'" by blast
        then show ?thesis using Suc by simp
      qed
    qed
    show ?thesis
      apply (rule exI[of _ "Suc j"])
      using j(1,2,3) all unfolding step by simp
  qed
qed

lemma format_small:
  assumes "0 \<le> b" "b < 2 ^ 53"
  shows "format_f d (PyInt b) = Inr (fixed_str d (of_int b))"
proof (cases "b = 0")
  case True
  then show ?thesis by (simp add: format_f_def to_double_def nearest_double_def)
next
  case False
  with assms have "nearest_double (of_int b) = of_int b" by (intro nearest_double_of_int) simp_all
  moreover have "\<bar>of_int b :: rat\<bar> < 2 ^ 1024"
  proof -
    have "(of_int b :: rat) < of_int (2 ^ 53)" using assms(2) by (simp only: of_int_less_iff)
    moreover have "(of_int (2 ^ 53) :: rat) < 2 ^ 1024" by simp
    ultimately show ?thesis using assms(1) by simp
  qed
  ultimately show ?thesis by (simp add: format_f_def to_double_def)
qed

text \<open>The parts of the result of the loop of \<^verbatim>\<open>get_size\<close>.\<close>

lemma size_parts:
  assumes "0 \<le> b" "b < 2 ^ 1034 - 2 ^ 980"
  shows "\<exists>k v num. k \<le> 6 \<and>
     size_loop (PyInt b) '''' units = Inr (num, units ! min k 5) \<and>
     float_of num = Inr v \<and>
     (k = 0 \<longleftrightarrow> b < 1024) \<and>
     v = (if k = 0 then of_int b else nearest_double (of_int b / 1024) / 1024 ^ (k - 1)) \<and>
     (0 < k \<longrightarrow> 1 \<le> v) \<and> (k < 6 \<longrightarrow> v < 1024) \<and>
     (\<forall>i. 0 < i \<and> i < k \<longrightarrow> 1024 \<le> nearest_double (of_int b / 1024) / 1024 ^ (i - 1)) \<and>
     num = (if k = 0 then PyInt b else PyFloat v)"
proof (cases "b < 1024")
  case True
  have l: "size_loop (PyInt b) '''' units = Inr (PyInt b, '''')"
    using True by (simp add: units_def factor_def)
  have "b < 2 ^ 53" using True by simp
  have n: "nearest_double (of_int b) = of_int b"
  proof (cases "b = 0")
    case True
    then show ?thesis by (simp add: nearest_double_def)
  next
    case False
    with assms(1) \<open>b < 2 ^ 53\<close> show ?thesis by (intro nearest_double_of_int) simp_all
  qed
  have a: "\<bar>of_int b :: rat\<bar> < 2 ^ 1024"
  proof -
    have "(of_int b :: rat) < of_int 1024" using True by (simp only: of_int_less_iff)
    moreover have "(of_int 1024 :: rat) < 2 ^ 1024" by simp
    ultimately show ?thesis using assms(1) by simp
  qed
  have f: "float_of (PyInt b) = Inr (of_int b)" using n a by (simp add: to_double_def)
  have lt: "(of_int b :: rat) < 1024" using True by simp
  show ?thesis
    apply (rule exI[of _ 0], rule exI[of _ "of_int b"], rule exI[of _ "PyInt b"])
    using l f True lt by (simp add: units_def)
next
  case False
  then have b: "1024 \<le> b" by simp
  define x :: rat where "x = of_int b / 1024"
  define y where "y = nearest_double x"
  have x1: "1 \<le> x" using b by (simp add: x_def)
  have "(of_int b :: rat) < of_int (2 ^ 1034 - 2 ^ 980)" using assms(2) by (simp only: of_int_less_iff)
  then have "(of_int b :: rat) < 1024 * (2 ^ 1024 - 2 ^ 970)" by simp
  then have xr: "x < 2 ^ 1024 - 2 ^ 970" by (simp add: x_def)
  have yr: "y < 2 ^ 1024" unfolding y_def by (rule nearest_double_in_range[OF x1 xr])
  obtain k0 where k0: "2 ^ k0 \<le> x" "x < 2 ^ Suc k0" using ilog2_bounds[OF x1] by blast
  have "(1::rat) \<le> 2 ^ k0" by simp
  then have y1: "1 \<le> y" using nearest_double_bounds(1)[OF k0] unfolding y_def by linarith
  have yd: "nearest_double y = y" unfolding y_def by (rule nearest_double_idem[OF x1])
  have t: "truediv (PyInt b) factor = Inr (PyFloat y)"
    using yr y1 by (simp add: factor_def to_double_def y_def x_def)
  define us where "us = [''K'', ''M'', ''G'', ''T'', ''P'']"
  have len: "length us = 5" by (simp add: us_def)
  have un: "units = '''' # us" by (simp add: units_def us_def)
  have step: "size_loop (PyInt b) '''' units = size_loop (PyFloat y) '''' us"
    using False t unfolding un by (simp add: factor_def)
  from size_loop_float[OF yd y1, of us "''''"]
  obtain j where j0: "j \<le> length us"
    "size_loop (PyFloat y) '''' us =
       Inr (PyFloat (y / 1024 ^ j), ('''' # us) ! (if j < length us then Suc j else length us))"
    "j < length us \<longrightarrow> y / 1024 ^ j < 1024"
    "\<forall>i < j. 1024 \<le> y / 1024 ^ i" by blast
  have j: "j \<le> 5" "j < 5 \<longrightarrow> y / 1024 ^ j < 1024" "\<forall>i < j. 1024 \<le> y / 1024 ^ i"
    using j0(1,3,4) unfolding len by simp_all
  have "(if j < length us then Suc j else length us) = min (Suc j) 5"
    using j(1) unfolding len by (simp add: min_def)
  then have r: "size_loop (PyFloat y) '''' us = Inr (PyFloat (y / 1024 ^ j), units ! min (Suc j) 5)"
    using j0(2) unfolding un by simp
  have v1: "1 \<le> y / 1024 ^ j"
  proof (cases j)
    case 0
    then show ?thesis using y1 by simp
  next
    case (Suc j')
    define w where "w = y / 1024 ^ j'"
    have "1024 \<le> w" using Suc j(3) by (simp add: w_def)
    then have w1: "1 \<le> w / 1024" by simp
    have e: "y / 1024 ^ j = w / 1024" using Suc by (simp add: w_def)
    show ?thesis using w1 by (simp only: e)
  qed
  have all: "\<forall>i. 0 < i \<and> i < Suc j \<longrightarrow> 1024 \<le> y / 1024 ^ (i - 1)"
  proof (intro allI impI)
    fix i assume "0 < i \<and> i < Suc j"
    then have "i - 1 < j" by arith
    with j(3) show "1024 \<le> y / 1024 ^ (i - 1)" by blast
  qed
  have res: "size_loop (PyInt b) [] units = Inr (PyFloat (y / 1024 ^ j), units ! min (Suc j) 5)"
    using step r by simp
  have yx: "nearest_double (of_int b / 1024) = y" by (simp add: y_def x_def)
  show ?thesis
    unfolding yx
    apply (rule exI[of _ "Suc j"], rule exI[of _ "y / 1024 ^ j"], rule exI[of _ "PyFloat (y / 1024 ^ j)"])
    using res j(1,2) v1 all False by simp
qed

lemma rhe_eqI_down:
  assumes "of_int n \<le> r" "r < of_int n + 1 / 2"
  shows "round_half_even r = n"
proof -
  have "\<lfloor>r\<rfloor> = n" using assms by (intro floor_unique) simp_all
  then show ?thesis using assms by (simp add: round_half_even_def Let_def)
qed

lemma rhe_eqI_up:
  assumes "of_int n - 1 / 2 < r" "r < of_int n"
  shows "round_half_even r = n"
proof -
  have f: "\<lfloor>r\<rfloor> = n - 1" using assms by (intro floor_unique) simp_all
  have "1 / 2 < r - of_int (n - 1)" using assms(1) by simp
  then show ?thesis using f by (simp add: round_half_even_def Let_def)
qed

lemma rhe_tie_up:
  assumes "r = of_int n - 1 / 2" "even n"
  shows "round_half_even r = n"
proof -
  have f: "\<lfloor>r\<rfloor> = n - 1" using assms(1) by (intro floor_unique) simp_all
  have d: "r - of_int (n - 1) = 1 / 2" using assms(1) by simp
  have "odd (n - 1)" using assms(2) by simp
  then show ?thesis unfolding round_half_even_def Let_def f d by simp
qed

lemma rhe_hundred_low: "1 \<le> v \<Longrightarrow> 100 \<le> round_half_even (v * 100)"
proof -
  assume "1 \<le> v"
  then have "of_int 100 \<le> v * 100" by simp
  then have "round_half_even (of_int 100) \<le> round_half_even (v * 100)" by (rule rhe_mono)
  then show ?thesis by (simp only: rhe_of_int)
qed

lemma rhe_hundred_high: "v \<le> 1024 \<Longrightarrow> round_half_even (v * 100) \<le> 102400"
proof -
  assume "v \<le> 1024"
  then have "v * 100 \<le> of_int 102400" by simp
  then have "round_half_even (v * 100) \<le> round_half_even (of_int 102400)" by (rule rhe_mono)
  then show ?thesis by (simp only: rhe_of_int)
qed

lemma pow2_minus_3: "pow2 (int 49 - 52) = 1 / 8"
  by (simp add: pow2_def)

lemma nearest_double_below_top: "nearest_double ((2 ^ 60 - 65) / 1024) = 2 ^ 50 - 1 / 8"
proof -
  have e: "nearest_double ((2 ^ 60 - 65) / 1024) =
      of_int (round_half_even ((2 ^ 60 - 65) / 1024 / pow2 (int 49 - 52))) * pow2 (int 49 - 52)"
    by (rule nearest_double_eq) simp_all
  have "round_half_even ((2 ^ 60 - 65) / 1024 / (1 / 8)) = 2 ^ 53 - 1"
    by (rule rhe_eqI_down) simp_all
  then show ?thesis unfolding e pow2_minus_3 by simp
qed

lemma nearest_double_at_top: "nearest_double ((2 ^ 60 - 64) / 1024) = 2 ^ 50"
proof -
  have e: "nearest_double ((2 ^ 60 - 64) / 1024) =
      of_int (round_half_even ((2 ^ 60 - 64) / 1024 / pow2 (int 49 - 52))) * pow2 (int 49 - 52)"
    by (rule nearest_double_eq) simp_all
  have "round_half_even ((2 ^ 60 - 64) / 1024 / (1 / 8)) = 2 ^ 53"
    by (rule rhe_tie_up) simp_all
  then show ?thesis unfolding e pow2_minus_3 by simp
qed

lemma nearest_double_pow2: "nearest_double (2 ^ k) = 2 ^ k"
proof -
  have e: "nearest_double (2 ^ k) =
      of_int (round_half_even (2 ^ k / pow2 (int k - 52))) * pow2 (int k - 52)"
    by (rule nearest_double_eq) simp_all
  have q: "0 < pow2 (int k - 52)" by (rule pow2_pos)
  have sh: "2 ^ 52 * pow2 (int k - 52) = 2 ^ k" using pow2_shift[of 52 k] by simp
  then have "(2 ^ k :: rat) / pow2 (int k - 52) = of_int (2 ^ 52)" using q by (simp add: field_simps)
  then have "round_half_even (2 ^ k / pow2 (int k - 52)) = 2 ^ 52" by (simp only: rhe_of_int)
  then show ?thesis using e sh by simp
qed

lemma size_text_overflow: "size_text (2 ^ 1034) sfx = Inl OverflowError"
proof -
  have q: "(of_int (2 ^ 1034) :: rat) / of_int factor = 2 ^ 1024" by (simp add: factor_def)
  have "to_double (2 ^ 1024) = Inl OverflowError"
    unfolding to_double_def nearest_double_pow2 by simp
  then have "truediv (PyInt (2 ^ 1034)) factor = Inl OverflowError"
    unfolding truediv.simps q by (simp add: factor_def)
  then have "size_loop (PyInt (2 ^ 1034)) '''' units = Inl OverflowError"
    unfolding units_def size_loop.simps by (simp add: factor_def)
  then show ?thesis by (simp add: size_text_def)
qed

lemma size_loop_float_step:
  assumes "nearest_double y = y"
  shows "size_loop (PyFloat y) u (a # rest) =
    (if y < 1024 then Inr (PyFloat y, a) else size_loop (PyFloat (y / 1024)) a rest)"
proof (cases "y < 1024")
  case True
  then show ?thesis by (simp add: factor_def)
next
  case False
  then have "1024 \<le> y" by simp
  from truediv_float(1)[OF assms this] False show ?thesis by (simp add: factor_def)
qed

lemma double_div: "nearest_double y = y \<Longrightarrow> 1024 \<le> y \<Longrightarrow> nearest_double (y / 1024) = y / 1024"
  by (rule truediv_float(2))

lemma digits_small: "0 \<le> n \<Longrightarrow> n < 10 \<Longrightarrow> digits n = [digit_char n]"
  by (simp add: digits.simps)

lemma str_int_0: "str_int 0 = ''0''"
  by (simp add: str_int_def digits_small digit_char_def)

lemma str_int_1: "str_int 1 = ''1''"
  by (simp add: str_int_def digits_small digit_char_def)

lemma str_int_1024: "str_int 1024 = ''1024''"
proof -
  have "digits 1024 = digits 102 @ [digit_char 4]" by (subst digits.simps) simp
  also have "digits 102 = digits 10 @ [digit_char 2]" by (subst digits.simps) simp
  also have "digits 10 = digits 1 @ [digit_char 0]" by (subst digits.simps) simp
  finally show ?thesis by (simp add: str_int_def digits_small digit_char_def)
qed

lemma fixed_str_2:
  assumes "0 \<le> x" "round_half_even (x * 100) = n"
  shows "fixed_str 2 x = str_int (n div 100) @ CHR ''.'' # zero_pad 2 (str_int (n mod 100))"
  using assms by (simp add: fixed_str_def Let_def)

lemma fixed_str_0: "fixed_str 2 0 = ''0.00''"
proof -
  have "round_half_even (0 * 100) = 0" using rhe_of_int[of 0] by simp
  from fixed_str_2[OF _ this] show ?thesis by (simp add: str_int_0 zero_pad_def)
qed

lemma fixed_str_1: "fixed_str 2 1 = ''1.00''"
proof -
  have "round_half_even (1 * 100) = 100" using rhe_of_int[of 100] by simp
  from fixed_str_2[OF _ this] show ?thesis by (simp add: str_int_0 str_int_1 zero_pad_def)
qed

lemma fixed_str_near_1024:
  assumes "1024 - 1 / 200 < x" "x < 1024"
  shows "fixed_str 2 x = ''1024.00''"
proof -
  have "round_half_even (x * 100) = 102400" using assms by (intro rhe_eqI_up) simp_all
  from fixed_str_2[OF _ this] assms show ?thesis by (simp add: str_int_0 str_int_1024 zero_pad_def)
qed

lemma unit_bytes_nth: "k \<le> 5 \<Longrightarrow> unit_bytes (units ! k) = 1024 ^ k"
proof -
  assume "k \<le> 5"
  then consider "k = 0" | "k = 1" | "k = 2" | "k = 3" | "k = 4" | "k = 5" by arith
  then show ?thesis by cases (simp_all add: unit_bytes_def units_def)
qed

lemma size_text_parts:
  assumes "size_loop (PyInt b) '''' units = Inr (num, u)" "float_of num = Inr v"
  shows "size_text b sfx = Inr (fixed_str 2 v @ '' '' @ u @ sfx)"
  using assms by (simp add: size_text_def format_f_def)

lemma denoted_parts:
  assumes "size_loop (PyInt b) '''' units = Inr (num, units ! k)" "float_of num = Inr v"
    "0 \<le> v" "k \<le> 5"
  shows "denoted_bytes b = Some (of_int (round_half_even (v * 100)) / 100 * 1024 ^ k)"
proof (cases "v = 0")
  case True
  have "round_half_even 0 = 0" using rhe_of_int[of 0] by simp
  then show ?thesis using assms True by (simp add: denoted_bytes_def)
next
  case False
  with assms(3) have "sgn v = 1" "\<bar>v\<bar> = v" by simp_all
  then show ?thesis using assms by (simp add: denoted_bytes_def unit_bytes_nth)
qed

text \<open>Which unit the loop selects, from the first quotient.\<close>

lemma size_unit:
  assumes b: "1024 \<le> b" "b < 2 ^ 1034 - 2 ^ 980"
    and j: "j \<le> 4" "1024 ^ j \<le> nearest_double (of_int b / 1024)"
      "nearest_double (of_int b / 1024) < 1024 ^ Suc j"
  shows "size_loop (PyInt b) '''' units =
    Inr (PyFloat (nearest_double (of_int b / 1024) / 1024 ^ j), units ! Suc j)"
proof -
  define y where "y = nearest_double (of_int b / 1024)"
  from b have b0: "0 \<le> b" by simp
  from size_parts[OF b0 b(2)] obtain k v num where p0: "k \<le> 6 \<and>
     size_loop (PyInt b) [] units = Inr (num, units ! min k 5) \<and>
     float_of num = Inr v \<and>
     (k = 0 \<longleftrightarrow> b < 1024) \<and>
     v = (if k = 0 then of_int b else nearest_double (of_int b / 1024) / 1024 ^ (k - 1)) \<and>
     (0 < k \<longrightarrow> 1 \<le> v) \<and> (k < 6 \<longrightarrow> v < 1024) \<and>
     (\<forall>i. 0 < i \<and> i < k \<longrightarrow> 1024 \<le> nearest_double (of_int b / 1024) / 1024 ^ (i - 1)) \<and>
     num = (if k = 0 then PyInt b else PyFloat v)"
    by (elim exE)
  note q = p0[folded y_def]
  note p = q[THEN conjunct1]
    q[THEN conjunct2, THEN conjunct1]
    q[THEN conjunct2, THEN conjunct2, THEN conjunct1]
    q[THEN conjunct2, THEN conjunct2, THEN conjunct2, THEN conjunct1]
    q[THEN conjunct2, THEN conjunct2, THEN conjunct2, THEN conjunct2, THEN conjunct1]
    q[THEN conjunct2, THEN conjunct2, THEN conjunct2, THEN conjunct2, THEN conjunct2, THEN conjunct1]
    q[THEN conjunct2, THEN conjunct2, THEN conjunct2, THEN conjunct2, THEN conjunct2, THEN conjunct2, THEN conjunct1]
    q[THEN conjunct2, THEN conjunct2, THEN conjunct2, THEN conjunct2, THEN conjunct2, THEN conjunct2, THEN conjunct2, THEN conjunct1]
    q[THEN conjunct2, THEN conjunct2, THEN conjunct2, THEN conjunct2, THEN conjunct2, THEN conjunct2, THEN conjunct2, THEN conjunct2]
  have k0: "0 < k" using p(4) b(1) by simp
  have v: "v = y / 1024 ^ (k - 1)" using p(5) k0 by simp
  have "k = Suc j"
  proof (rule ccontr)
    assume n: "k \<noteq> Suc j"
    show False
    proof (cases "k < Suc j")
      case True
      then have "k < 6" using j(1) by simp
      with p(7) v have "y / 1024 ^ (k - 1) < 1024" by simp
      then have "y < 1024 * 1024 ^ (k - 1)" by (simp add: pos_divide_less_eq)
      also have "\<dots> = 1024 ^ k" using k0 by (cases k) simp_all
      also have "\<dots> \<le> 1024 ^ j" using True by (intro power_increasing) simp_all
      finally show False using j(2) y_def by simp
    next
      case False
      with n have "Suc j < k" by simp
      then have "1024 \<le> y / 1024 ^ (Suc j - 1)" using p(8)[rule_format, of "Suc j"] by simp
      then have "1024 * 1024 ^ j \<le> y" by (simp add: pos_le_divide_eq)
      then show False using j(3) y_def by simp
    qed
  qed
  moreover have "num = PyFloat v" using p(9) k0 by simp
  ultimately show ?thesis using p(2) v j(1) by (simp add: y_def)
qed

lemma size_top:
  assumes b: "1024 \<le> b" "b < 2 ^ 1034 - 2 ^ 980"
    and y: "1024 ^ 5 \<le> nearest_double (of_int b / 1024)"
  shows "size_loop (PyInt b) [] units =
    Inr (PyFloat (nearest_double (of_int b / 1024) / 1024 ^ 5), units ! 5)"
proof -
  define y where "y = nearest_double (of_int b / 1024)"
  from b have b0: "0 \<le> b" by simp
  from size_parts[OF b0 b(2)] obtain k v num where p0: "k \<le> 6 \<and>
     size_loop (PyInt b) [] units = Inr (num, units ! min k 5) \<and>
     float_of num = Inr v \<and>
     (k = 0 \<longleftrightarrow> b < 1024) \<and>
     v = (if k = 0 then of_int b else nearest_double (of_int b / 1024) / 1024 ^ (k - 1)) \<and>
     (0 < k \<longrightarrow> 1 \<le> v) \<and> (k < 6 \<longrightarrow> v < 1024) \<and>
     (\<forall>i. 0 < i \<and> i < k \<longrightarrow> 1024 \<le> nearest_double (of_int b / 1024) / 1024 ^ (i - 1)) \<and>
     num = (if k = 0 then PyInt b else PyFloat v)"
    by (elim exE)
  note q = p0[folded y_def]
  note p = q[THEN conjunct1]
    q[THEN conjunct2, THEN conjunct1]
    q[THEN conjunct2, THEN conjunct2, THEN conjunct1]
    q[THEN conjunct2, THEN conjunct2, THEN conjunct2, THEN conjunct1]
    q[THEN conjunct2, THEN conjunct2, THEN conjunct2, THEN conjunct2, THEN conjunct1]
    q[THEN conjunct2, THEN conjunct2, THEN conjunct2, THEN conjunct2, THEN conjunct2, THEN conjunct1]
    q[THEN conjunct2, THEN conjunct2, THEN conjunct2, THEN conjunct2, THEN conjunct2, THEN conjunct2, THEN conjunct1]
    q[THEN conjunct2, THEN conjunct2, THEN conjunct2, THEN conjunct2, THEN conjunct2, THEN conjunct2, THEN conjunct2, THEN conjunct1]
    q[THEN conjunct2, THEN conjunct2, THEN conjunct2, THEN conjunct2, THEN conjunct2, THEN conjunct2, THEN conjunct2, THEN conjunct2]
  have k0: "0 < k" using p(4) b(1) by simp
  have v: "v = y / 1024 ^ (k - 1)" using p(5) k0 by simp
  have "k = 6"
  proof (rule ccontr)
    assume "k \<noteq> 6"
    with p(1) have k6: "k < 6" by simp
    with p(7) v have "y / 1024 ^ (k - 1) < 1024" by simp
    then have "y < 1024 * 1024 ^ (k - 1)" by (simp add: pos_divide_less_eq)
    also have "\<dots> = 1024 ^ k" using k0 by (cases k) simp_all
    also have "\<dots> \<le> 1024 ^ 5" using k6 by (intro power_increasing) simp_all
    finally show False using y y_def by simp
  qed
  moreover have "num = PyFloat v" using p(9) k0 by simp
  ultimately show ?thesis using p(2) v by (simp add: y_def)
qed

lemma scale_six:
  assumes "2 ^ 60 \<le> b"
  shows "nearest_double (of_int b / 1024) / 1024 ^ 5 = nearest_double (of_int b / 1024 ^ 6)"
proof -
  define x :: rat where "x = of_int b"
  have "(of_int (2 ^ 60) :: rat) \<le> of_int b" using assms by (simp only: of_int_le_iff)
  then have x: "2 ^ 60 \<le> x" by (simp add: x_def)
  have 1: "nearest_double (x / 1024 / 1024) = nearest_double (x / 1024) / 1024"
    using x by (intro nearest_double_scale) simp
  have 2: "nearest_double (x / 1024 / 1024 / 1024) = nearest_double (x / 1024 / 1024) / 1024"
    using x by (intro nearest_double_scale) simp
  have 3: "nearest_double (x / 1024 / 1024 / 1024 / 1024) =
      nearest_double (x / 1024 / 1024 / 1024) / 1024"
    using x by (intro nearest_double_scale) simp
  have 4: "nearest_double (x / 1024 / 1024 / 1024 / 1024 / 1024) =
      nearest_double (x / 1024 / 1024 / 1024 / 1024) / 1024"
    using x by (intro nearest_double_scale) simp
  have 5: "nearest_double (x / 1024 / 1024 / 1024 / 1024 / 1024 / 1024) =
      nearest_double (x / 1024 / 1024 / 1024 / 1024 / 1024) / 1024"
    using x by (intro nearest_double_scale) simp
  have a: "x / 1024 ^ 6 = x / 1024 / 1024 / 1024 / 1024 / 1024 / 1024" by simp
  show ?thesis unfolding x_def[symmetric] a 5 4 3 2 1 by simp
qed

lemma first_quotient_top:
  assumes "2 ^ 60 - 64 \<le> b"
  shows "2 ^ 50 \<le> nearest_double (of_int b / 1024)"
proof -
  have "(of_int (2 ^ 60 - 64) :: rat) \<le> of_int b" using assms by (simp only: of_int_le_iff)
  then have "((2 ^ 60 - 64) / 1024 :: rat) \<le> of_int b / 1024" by simp
  moreover have "(1::rat) \<le> (2 ^ 60 - 64) / 1024" by simp
  ultimately have "nearest_double ((2 ^ 60 - 64) / 1024) \<le> nearest_double (of_int b / 1024)"
    by (intro nearest_double_mono)
  then show ?thesis by (simp only: nearest_double_at_top)
qed

lemma first_quotient_below_top:
  assumes "1024 \<le> b" "b \<le> 2 ^ 60 - 65"
  shows "nearest_double (of_int b / 1024) < 2 ^ 50"
proof -
  have "(of_int b :: rat) \<le> of_int (2 ^ 60 - 65)" using assms(2) by (simp only: of_int_le_iff)
  then have "(of_int b / 1024 :: rat) \<le> (2 ^ 60 - 65) / 1024" by simp
  moreover have "(1::rat) \<le> of_int b / 1024" using assms(1) by simp
  ultimately have "nearest_double (of_int b / 1024) \<le> nearest_double ((2 ^ 60 - 65) / 1024)"
    by (intro nearest_double_mono)
  then show ?thesis by (simp only: nearest_double_below_top)
qed

section \<open>The per-core loop\<close>

lemma py_bind_Inr: "m s = (Inr x, s') \<Longrightarrow> py_bind m f s = f x s'"
  by (simp add: py_bind_def)

lemma py_bind_Inl: "m s = (Inl e, s') \<Longrightarrow> py_bind m f s = (Inl e, s')"
  by (simp add: py_bind_def)

lemma lang_call:
  "lang name s = (lang_result s name, s\<lparr>events := events s @ [Call (Lang name)]\<rparr>)"
  by (simp add: lang_def call_def)

lemma code_call:
  "code t s = (code_result s t, s\<lparr>events := events s @ [Call (Code t)]\<rparr>)"
  by (simp add: code_def call_def)

lemma per_core_loop_result:
  "lang_result s ''core'' = Inr core \<Longrightarrow> lang_result s ''colon'' = Inr colon \<Longrightarrow>
   (\<forall>p \<in> set ps. code_result s (float_str s (snd p) @ ''%'') = Inr (c (snd p))) \<Longrightarrow>
   \<exists>evs. per_core_loop ps status s =
     (Inr (status @ concat (map (\<lambda>p. core_line core colon (int (fst p) + 1) (c (snd p))
                                      @ [CHR 0x0A]) ps)),
      s\<lparr>events := events s @ evs\<rparr>)"
proof (induction ps arbitrary: status s)
  case Nil
  show ?case by (rule exI[of _ "[]"]) (simp add: py_return_def)
next
  case (Cons p ps)
  define evs3 where "evs3 = [Call (Lang ''core''), Call (Lang ''colon''),
      Call (Code (float_str s (snd p) @ ''%''))]"
  define s3 where "s3 = s\<lparr>events := events s @ evs3\<rparr>"
  define st where "st = status @ core_line core colon (int (fst p) + 1) (c (snd p)) @ [CHR 0x0A]"
  have cp: "code_result s (float_str s (snd p) @ ''%'') = Inr (c (snd p))"
    using Cons.prems(3) by simp
  have step: "per_core_loop (p # ps) status s = per_core_loop ps st s3"
    using Cons.prems(1,2) cp
    by (simp add: py_bind_def lang_call code_call st_def s3_def evs3_def core_line_def)
  have "\<exists>evs. per_core_loop ps st s3 =
     (Inr (st @ concat (map (\<lambda>p. core_line core colon (int (fst p) + 1) (c (snd p))
                                      @ [CHR 0x0A]) ps)),
      s3\<lparr>events := events s3 @ evs\<rparr>)"
  proof (rule Cons.IH)
    show "lang_result s3 ''core'' = Inr core" using Cons.prems(1) by (simp add: s3_def)
    show "lang_result s3 ''colon'' = Inr colon" using Cons.prems(2) by (simp add: s3_def)
    show "\<forall>p \<in> set ps. code_result s3 (float_str s3 (snd p) @ ''%'') = Inr (c (snd p))"
      using Cons.prems(3) by (simp add: s3_def)
  qed
  then obtain evs where r: "per_core_loop ps st s3 =
     (Inr (st @ concat (map (\<lambda>p. core_line core colon (int (fst p) + 1) (c (snd p))
                                      @ [CHR 0x0A]) ps)),
      s3\<lparr>events := events s3 @ evs\<rparr>)" by blast
  have e: "s3\<lparr>events := events s3 @ evs\<rparr> = s\<lparr>events := events s @ (evs3 @ evs)\<rparr>"
    by (simp add: s3_def)
  show ?case
    unfolding step r e by (rule exI[of _ "evs3 @ evs"]) (simp add: st_def)
qed

lemma strip_last_newline:
  "(if concat (map (\<lambda>l. l @ [n]) ls) \<noteq> [] then butlast (concat (map (\<lambda>l. l @ [n]) ls))
    else concat (map (\<lambda>l. l @ [n]) ls)) = join [n] ls"
proof (cases "ls = []")
  case True
  then show ?thesis by simp
next
  case False
  then have "concat (map (\<lambda>l. l @ [n]) ls) = join [n] ls @ [n]"
    by (rule concat_lines)
  then show ?thesis by simp
qed

lemma cpu_usage_per_status_result:
  assumes "cpu_percent_percpu_result s = Inr xs"
    and "lang_result s ''core'' = Inr core" and "lang_result s ''colon'' = Inr colon"
    and "\<forall>x \<in> set xs. code_result s (float_str s x @ ''%'') = Inr (c x)"
  shows "\<exists>s'. cpu_usage_per_status s =
     (Inr (join [CHR 0x0A]
        (map (\<lambda>p. core_line core colon (int (fst p) + 1) (c (snd p))) (enumerate 0 xs))), s')"
proof -
  define s1 where "s1 = s\<lparr>events := events s @ [Call Cpu_percent_percpu]\<rparr>"
  define ls where
    "ls = map (\<lambda>p. core_line core colon (int (fst p) + 1) (c (snd p))) (enumerate 0 xs)"
  have in_set: "snd p \<in> set xs" if "p \<in> set (enumerate 0 xs)" for p
  proof -
    have "map snd (enumerate 0 xs) = xs" by simp
    then have "set xs = snd ` set (enumerate 0 xs)" by (metis set_map)
    with that show ?thesis by simp
  qed
  have "\<exists>evs. per_core_loop (enumerate 0 xs) '''' s1 =
     (Inr ('''' @ concat (map (\<lambda>p. core_line core colon (int (fst p) + 1) (c (snd p))
                                      @ [CHR 0x0A]) (enumerate 0 xs))),
      s1\<lparr>events := events s1 @ evs\<rparr>)"
  proof (rule per_core_loop_result)
    show "lang_result s1 ''core'' = Inr core" using assms(2) by (simp add: s1_def)
    show "lang_result s1 ''colon'' = Inr colon" using assms(3) by (simp add: s1_def)
    show "\<forall>p \<in> set (enumerate 0 xs).
        code_result s1 (float_str s1 (snd p) @ ''%'') = Inr (c (snd p))"
      using assms(4) in_set by (simp add: s1_def)
  qed
  then obtain evs where l0: "per_core_loop (enumerate 0 xs) '''' s1 =
     (Inr (concat (map (\<lambda>p. core_line core colon (int (fst p) + 1) (c (snd p))
                                      @ [CHR 0x0A]) (enumerate 0 xs))),
      s1\<lparr>events := events s1 @ evs\<rparr>)"
    by auto
  have m: "map (\<lambda>p. core_line core colon (int (fst p) + 1) (c (snd p)) @ [CHR 0x0A])
      (enumerate 0 xs) = map (\<lambda>l. l @ [CHR 0x0A]) ls"
    by (simp add: ls_def)
  have l: "per_core_loop (enumerate 0 xs) '''' s1 =
     (Inr (concat (map (\<lambda>l. l @ [CHR 0x0A]) ls)), s1\<lparr>events := events s1 @ evs\<rparr>)"
    using l0 unfolding m .
  have c: "cpu_percent_percpu s = (Inr xs, s1)"
    using assms(1) by (simp add: cpu_percent_percpu_def call_def s1_def)
  have "cpu_usage_per_status s =
     (Inr (if concat (map (\<lambda>l. l @ [CHR 0x0A]) ls) \<noteq> []
           then butlast (concat (map (\<lambda>l. l @ [CHR 0x0A]) ls))
           else concat (map (\<lambda>l. l @ [CHR 0x0A]) ls)), s1\<lparr>events := events s1 @ evs\<rparr>)"
    by (simp only: cpu_usage_per_status_def py_bind_def c l prod.case sum.case py_return_def)
  then show ?thesis unfolding strip_last_newline ls_def by blast
qed


section \<open>Further facts about the passes and the size formatter\<close>

lemma get_size_Inr: "size_text b sfx = Inr t \<Longrightarrow> get_size b sfx s = (Inr t, s)"
  by (simp add: get_size_def try_except_def py_lift_def)

lemma get_size_Inl:
  "size_text b sfx = Inl e \<Longrightarrow>
   get_size b sfx s = (Inr [], s\<lparr>events := events s @ [Warning ''Get size error'' e]\<rparr>)"
  by (simp add: get_size_def try_except_def py_lift_def py_bind_def logger_warning_def
      py_return_def)



lemma mem_size_status_swallows:
  assumes "virtual_memory_result s = Inr m" "size_text (field m) ''B'' = Inl e"
  shows "mem_size_status field s =
    (Inr [], s\<lparr>events := events s @ [Call Virtual_memory, Warning ''Get size error'' e]\<rparr>)"
proof -
  have v: "virtual_memory s = (Inr m, s\<lparr>events := events s @ [Call Virtual_memory]\<rparr>)"
    using assms(1) by (simp add: virtual_memory_def call_def)
  show ?thesis
    unfolding mem_size_status_def
    by (simp add: py_bind_Inr[of virtual_memory s m, OF v] get_size_Inl[OF assms(2)])
qed

lemma cpu_usage_per_status_empty:
  "cpu_percent_percpu_result s = Inr [] \<Longrightarrow>
   cpu_usage_per_status s = (Inr [], s\<lparr>events := events s @ [Call Cpu_percent_percpu]\<rparr>)"
  by (simp add: cpu_usage_per_status_def cpu_percent_percpu_def call_def py_bind_def
      py_return_def)

lemma map_enumerate_nth:
  "map (\<lambda>p. g (fst p) (snd p)) (enumerate 0 xs) = map (\<lambda>i. g i (xs ! i)) [0..<length xs]"
  by (rule nth_equalityI) (simp_all add: nth_enumerate_eq)

lemma fixed_str_1_5: "fixed_str 1 (3 / 2) = ''1.5''"
proof -
  have "round_half_even (15 :: rat) = 15" using rhe_of_int[of 15] by simp
  then show ?thesis
    by (simp add: fixed_str_def Let_def str_int_def digits_small digit_char_def zero_pad_def)
qed

lemma uname_release_call:
  "uname_release s = (uname_release_result s, s\<lparr>events := events s @ [Call Uname]\<rparr>)"
  by (simp add: uname_release_def call_def)

lemma size_text_0: "size_text 0 sfx = Inr (''0.00 '' @ sfx)"
proof -
  have l: "size_loop (PyInt 0) '''' units = Inr (PyInt 0, '''')"
    by (simp add: units_def factor_def)
  have f: "format_f 2 (PyInt 0) = Inr (fixed_str 2 (of_int 0))"
    by (rule format_small) simp_all
  show ?thesis using l f fixed_str_0 by (simp add: size_text_def)
qed

lemma in_range_1024: "(1024::int) < 2 ^ 1034 - 2 ^ 980"
  by simp

lemma size_text_1024: "size_text 1024 sfx = Inr (''1.00 K'' @ sfx)"
proof -
  have q: "(of_int 1024 / 1024 :: rat) = of_int 1" by simp
  have n: "nearest_double (of_int 1024 / 1024) = 1"
    unfolding q using nearest_double_of_int[of 1] by simp
  have l: "size_loop (PyInt 1024) '''' units =
      Inr (PyFloat (nearest_double (of_int 1024 / 1024) / 1024 ^ 0), units ! Suc 0)"
    by (rule size_unit) (simp_all only: n, simp_all)
  then have l': "size_loop (PyInt 1024) '''' units = Inr (PyFloat 1, ''K'')"
    unfolding n by (simp add: units_def)
  have f: "float_of (PyFloat 1) = Inr 1" by simp
  show ?thesis using size_text_parts[OF l' f, of sfx] by (simp add: fixed_str_1)
qed

lemma size_text_tebibyte: "size_text (1024 ^ 4) sfx = Inr (''1.00 T'' @ sfx)"
proof -
  define b :: int where "b = 1024 ^ 4"
  have q: "(of_int b / 1024 :: rat) = 2 ^ 30" by (simp add: b_def)
  have n: "nearest_double (of_int b / 1024) = 2 ^ 30"
    unfolding q by (rule nearest_double_pow2)
  have b1: "1024 \<le> b" and b2: "b < 2 ^ 1034 - 2 ^ 980" by (simp_all add: b_def)
  have j2: "(1024 :: rat) ^ 3 \<le> nearest_double (of_int b / 1024)" unfolding n by simp
  have j3: "nearest_double (of_int b / 1024) < (1024 :: rat) ^ Suc 3" unfolding n by simp
  have l: "size_loop (PyInt b) '''' units =
      Inr (PyFloat (nearest_double (of_int b / 1024) / 1024 ^ 3), units ! Suc 3)"
    by (rule size_unit[OF b1 b2 _ j2 j3]) simp
  then have l': "size_loop (PyInt b) '''' units = Inr (PyFloat 1, ''T'')"
    unfolding n by (simp add: units_def)
  have f: "float_of (PyFloat 1) = Inr 1" by simp
  show ?thesis using size_text_parts[OF l' f, of sfx] by (simp add: fixed_str_1 b_def)
qed

lemma size_text_top:
  assumes "2 ^ 60 - 64 \<le> b" "b < 2 ^ 1034 - 2 ^ 980"
  shows "size_text b sfx =
    Inr (fixed_str 2 (nearest_double (of_int b / 1024) / 1024 ^ 5) @ '' P'' @ sfx)"
proof -
  have b1: "1024 \<le> b" using assms(1) by simp
  have "(2 :: rat) ^ 50 \<le> nearest_double (of_int b / 1024)"
    by (rule first_quotient_top[OF assms(1)])
  then have y: "(1024 :: rat) ^ 5 \<le> nearest_double (of_int b / 1024)" by simp
  have l: "size_loop (PyInt b) [] units =
      Inr (PyFloat (nearest_double (of_int b / 1024) / 1024 ^ 5), units ! 5)"
    by (rule size_top[OF b1 assms(2) y])
  have f: "float_of (PyFloat (nearest_double (of_int b / 1024) / 1024 ^ 5)) =
      Inr (nearest_double (of_int b / 1024) / 1024 ^ 5)" by simp
  show ?thesis using size_text_parts[OF l f, of sfx] by (simp add: units_def)
qed

lemma first_quotient_exbibyte:
  assumes "2 ^ 60 - 64 \<le> b" "b \<le> 2 ^ 60"
  shows "nearest_double (of_int b / 1024) = 2 ^ 50"
proof -
  have lo: "(2 :: rat) ^ 50 \<le> nearest_double (of_int b / 1024)"
    by (rule first_quotient_top[OF assms(1)])
  have "(of_int b :: rat) \<le> of_int (2 ^ 60)" using assms(2) by (simp only: of_int_le_iff)
  then have le: "(of_int b / 1024 :: rat) \<le> 2 ^ 50" by simp
  have "(of_int (2 ^ 60 - 64) :: rat) \<le> of_int b" using assms(1) by (simp only: of_int_le_iff)
  then have one: "(1 :: rat) \<le> of_int b / 1024" by simp
  have "nearest_double (of_int b / 1024) \<le> nearest_double (2 ^ 50)"
    by (rule nearest_double_mono[OF one le])
  then have "nearest_double (of_int b / 1024) \<le> 2 ^ 50" by (simp only: nearest_double_pow2)
  with lo show ?thesis by simp
qed

lemma size_text_exbibyte:
  assumes "2 ^ 60 - 64 \<le> b" "b \<le> 2 ^ 60"
  shows "size_text b sfx = Inr (''1.00 P'' @ sfx)"
proof -
  have "(2 :: int) ^ 60 < 2 ^ 1034 - 2 ^ 980" by simp
  with assms(2) have r: "b < 2 ^ 1034 - 2 ^ 980" by linarith
  have v: "nearest_double (of_int b / 1024) / 1024 ^ 5 = 1"
    unfolding first_quotient_exbibyte[OF assms] by simp
  show ?thesis using size_text_top[OF assms(1) r, of sfx] unfolding v by (simp add: fixed_str_1)
qed

lemma size_text_last_below: "size_text (2 ^ 60 - 65) sfx = Inr (''1024.00 P'' @ sfx)"
proof -
  define b :: int where "b = 2 ^ 60 - 65"
  have q: "(of_int b / 1024 :: rat) = (2 ^ 60 - 65) / 1024" by (simp add: b_def)
  have n: "nearest_double (of_int b / 1024) = 2 ^ 50 - 1 / 8"
    unfolding q by (rule nearest_double_below_top)
  have b1: "1024 \<le> b" and b2: "b < 2 ^ 1034 - 2 ^ 980" by (simp_all add: b_def)
  have j2: "(1024 :: rat) ^ 4 \<le> nearest_double (of_int b / 1024)" unfolding n by simp
  have j3: "nearest_double (of_int b / 1024) < (1024 :: rat) ^ Suc 4" unfolding n by simp
  have l: "size_loop (PyInt b) '''' units =
      Inr (PyFloat (nearest_double (of_int b / 1024) / 1024 ^ 4), units ! Suc 4)"
    by (rule size_unit[OF b1 b2 _ j2 j3]) simp
  define v :: rat where "v = (2 ^ 50 - 1 / 8) / 1024 ^ 4"
  have l': "size_loop (PyInt b) '''' units = Inr (PyFloat v, ''P'')"
    using l unfolding n v_def by (simp add: units_def)
  have f: "float_of (PyFloat v) = Inr v" by simp
  have "fixed_str 2 v = ''1024.00''"
    by (rule fixed_str_near_1024) (simp_all add: v_def)
  then show ?thesis using size_text_parts[OF l' f, of sfx] by (simp add: b_def)
qed

lemma size_denoted:
  assumes "0 \<le> b" "b \<le> 2 ^ 60 - 65"
  shows "\<exists>k v. k \<le> 5 \<and> 0 \<le> v \<and> v < 1024 \<and> (k = 0 \<longleftrightarrow> b < 1024) \<and>
     v = (if k = 0 then of_int b else nearest_double (of_int b / 1024) / 1024 ^ (k - 1)) \<and>
     (0 < k \<longrightarrow> 1 \<le> v) \<and>
     (\<forall>i. 0 < i \<and> i < k \<longrightarrow> 1024 \<le> nearest_double (of_int b / 1024) / 1024 ^ (i - 1)) \<and>
     size_text b sfx = Inr (fixed_str 2 v @ '' '' @ units ! k @ sfx) \<and>
     denoted_bytes b = Some (of_int (round_half_even (v * 100)) / 100 * 1024 ^ k)"
proof -
  have "(2 :: int) ^ 60 - 65 < 2 ^ 1034 - 2 ^ 980" by simp
  with assms(2) have r: "b < 2 ^ 1034 - 2 ^ 980" by linarith
  from size_parts[OF assms(1) r] obtain k v num where q: "k \<le> 6 \<and>
     size_loop (PyInt b) [] units = Inr (num, units ! min k 5) \<and>
     float_of num = Inr v \<and>
     (k = 0 \<longleftrightarrow> b < 1024) \<and>
     v = (if k = 0 then of_int b else nearest_double (of_int b / 1024) / 1024 ^ (k - 1)) \<and>
     (0 < k \<longrightarrow> 1 \<le> v) \<and> (k < 6 \<longrightarrow> v < 1024) \<and>
     (\<forall>i. 0 < i \<and> i < k \<longrightarrow> 1024 \<le> nearest_double (of_int b / 1024) / 1024 ^ (i - 1)) \<and>
     num = (if k = 0 then PyInt b else PyFloat v)"
    by (elim exE)
  note p = q[THEN conjunct1]
    q[THEN conjunct2, THEN conjunct1]
    q[THEN conjunct2, THEN conjunct2, THEN conjunct1]
    q[THEN conjunct2, THEN conjunct2, THEN conjunct2, THEN conjunct1]
    q[THEN conjunct2, THEN conjunct2, THEN conjunct2, THEN conjunct2, THEN conjunct1]
    q[THEN conjunct2, THEN conjunct2, THEN conjunct2, THEN conjunct2, THEN conjunct2, THEN conjunct1]
    q[THEN conjunct2, THEN conjunct2, THEN conjunct2, THEN conjunct2, THEN conjunct2, THEN conjunct2, THEN conjunct1]
    q[THEN conjunct2, THEN conjunct2, THEN conjunct2, THEN conjunct2, THEN conjunct2, THEN conjunct2, THEN conjunct2, THEN conjunct1]
  have k5: "k \<le> 5"
  proof (rule ccontr)
    assume "\<not> k \<le> 5"
    with p(1) have k6: "k = 6" by simp
    then have "\<not> b < 1024" using p(4) by simp
    then have b1: "1024 \<le> b" by simp
    have "1024 \<le> nearest_double (of_int b / 1024) / 1024 ^ (5 - 1)"
      using p(8)[rule_format, of 5] k6 by simp
    then have "(1024 :: rat) * 1024 ^ 4 \<le> nearest_double (of_int b / 1024)"
      by (simp add: pos_le_divide_eq)
    moreover have "nearest_double (of_int b / 1024) < 2 ^ 50"
      by (rule first_quotient_below_top[OF b1 assms(2)])
    ultimately show False by simp
  qed
  then have m: "min k 5 = k" by simp
  have v0: "0 \<le> v"
  proof (cases "k = 0")
    case True
    then show ?thesis using p(5) assms(1) by simp
  next
    case False
    then show ?thesis using p(6) by simp
  qed
  have v1: "v < 1024" using p(7) k5 by simp
  have l: "size_loop (PyInt b) [] units = Inr (num, units ! k)" using p(2) unfolding m .
  have st: "size_text b sfx = Inr (fixed_str 2 v @ '' '' @ units ! k @ sfx)"
    by (rule size_text_parts[OF l p(3)])
  have d: "denoted_bytes b = Some (of_int (round_half_even (v * 100)) / 100 * 1024 ^ k)"
    by (rule denoted_parts[OF l p(3) v0 k5])
  show ?thesis
    apply (rule exI[of _ k], rule exI[of _ v])
    using k5 v0 v1 p(4) p(5) p(6) p(8) st d by blast
qed

lemma denoted_le:
  fixes a b :: int and va vb :: rat
  assumes ab: "a \<le> b" and a0: "0 \<le> a"
    and ka: "ka = 0 \<longleftrightarrow> a < 1024" and kb: "kb = 0 \<longleftrightarrow> b < 1024"
    and va: "va = (if ka = 0 then of_int a
                   else nearest_double (of_int a / 1024) / 1024 ^ (ka - 1))"
    and vb: "vb = (if kb = 0 then of_int b
                   else nearest_double (of_int b / 1024) / 1024 ^ (kb - 1))"
    and va1: "0 < ka \<longrightarrow> 1 \<le> va" and vb1: "0 < kb \<longrightarrow> 1 \<le> vb"
    and va2: "va < 1024" and vb2: "vb < 1024"
    and alla: "\<forall>i. 0 < i \<and> i < ka \<longrightarrow> 1024 \<le> nearest_double (of_int a / 1024) / 1024 ^ (i - 1)"
  shows "(of_int (round_half_even (va * 100)) / 100 * 1024 ^ ka :: rat) \<le>
    of_int (round_half_even (vb * 100)) / 100 * 1024 ^ kb"
proof -
  define ra where "ra = round_half_even (va * 100)"
  define rb where "rb = round_half_even (vb * 100)"
  define ya where "ya = nearest_double (of_int a / 1024)"
  define yb where "yb = nearest_double (of_int b / 1024)"
  have yab: "ya \<le> yb" if "1024 \<le> a"
  proof -
    have "(1 :: rat) \<le> of_int a / 1024" using that by simp
    moreover have "(of_int a / 1024 :: rat) \<le> of_int b / 1024" using ab by simp
    ultimately show ?thesis unfolding ya_def yb_def by (rule nearest_double_mono)
  qed
  consider "ka < kb" | "ka = kb" | "kb < ka" by linarith
  then show ?thesis
  proof cases
    case 1
    have "va \<le> 1024" using va2 by simp
    then have "ra \<le> 102400" unfolding ra_def by (rule rhe_hundred_high)
    then have "(of_int ra :: rat) \<le> of_int 102400" by (simp only: of_int_le_iff)
    then have "(of_int ra / 100 :: rat) \<le> 1024" by simp
    then have "(of_int ra / 100 :: rat) * 1024 ^ ka \<le> 1024 * 1024 ^ ka"
      by (rule mult_right_mono) simp
    then have hi: "(of_int ra / 100 :: rat) * 1024 ^ ka \<le> 1024 ^ Suc ka" by simp
    have "0 < kb" using 1 by simp
    with vb1 have "1 \<le> vb" by simp
    then have "100 \<le> rb" unfolding rb_def by (rule rhe_hundred_low)
    then have "(of_int 100 :: rat) \<le> of_int rb" by (simp only: of_int_le_iff)
    then have "(1 :: rat) \<le> of_int rb / 100" by simp
    then have "(1 :: rat) * 1024 ^ kb \<le> of_int rb / 100 * 1024 ^ kb"
      by (rule mult_right_mono) simp
    then have lo: "(1024 :: rat) ^ kb \<le> of_int rb / 100 * 1024 ^ kb" by simp
    have "Suc ka \<le> kb" using 1 by simp
    then have "(1024 :: rat) ^ Suc ka \<le> 1024 ^ kb" by (intro power_increasing) simp_all
    with hi lo show ?thesis unfolding ra_def rb_def by linarith
  next
    case 2
    have "va \<le> vb"
    proof (cases "ka = 0")
      case True
      with 2 have "kb = 0" by simp
      with True va vb ab show ?thesis by simp
    next
      case False
      with ka have "1024 \<le> a" by simp
      then have y: "ya \<le> yb" by (rule yab)
      have e1: "va = ya / 1024 ^ (ka - 1)" using va False by (simp add: ya_def)
      have e2: "vb = yb / 1024 ^ (ka - 1)" using vb False 2 by (simp add: yb_def)
      show ?thesis unfolding e1 e2 using y by (intro divide_right_mono) simp_all
    qed
    then have "va * 100 \<le> vb * 100" by simp
    then have "ra \<le> rb" unfolding ra_def rb_def by (rule rhe_mono)
    then have "(of_int ra :: rat) \<le> of_int rb" by (simp only: of_int_le_iff)
    then have "(of_int ra / 100 :: rat) \<le> of_int rb / 100" by simp
    then have "(of_int ra / 100 :: rat) * 1024 ^ ka \<le> of_int rb / 100 * 1024 ^ ka"
      by (rule mult_right_mono) simp
    then show ?thesis unfolding ra_def rb_def 2 .
  next
    case 3
    then have "0 < ka" by simp
    with ka have a1: "1024 \<le> a" by simp
    with ab have "\<not> b < 1024" by simp
    with kb have kb0: "0 < kb" by simp
    have y: "ya \<le> yb" using a1 by (rule yab)
    have "1024 \<le> ya / 1024 ^ (kb - 1)"
      using alla[rule_format, of kb] kb0 3 by (simp add: ya_def)
    also have "ya / 1024 ^ (kb - 1) \<le> yb / 1024 ^ (kb - 1)"
      using y by (intro divide_right_mono) simp_all
    also have "yb / 1024 ^ (kb - 1) = vb" using vb kb0 by (simp add: yb_def)
    finally show ?thesis using vb2 by simp
  qed
qed

lemma size_loop_exbibyte: "size_loop (PyInt (2 ^ 60)) [] units = Inr (PyFloat 1, units ! 5)"
proof -
  define b :: int where "b = 2 ^ 60"
  have b0: "2 ^ 60 - 64 \<le> b" and b1: "b \<le> 2 ^ 60" and b2: "1024 \<le> b"
    and b3: "b < 2 ^ 1034 - 2 ^ 980" by (simp_all add: b_def)
  have n: "nearest_double (of_int b / 1024) = 2 ^ 50" by (rule first_quotient_exbibyte[OF b0 b1])
  have y: "(1024 :: rat) ^ 5 \<le> nearest_double (of_int b / 1024)" unfolding n by simp
  have "size_loop (PyInt b) [] units =
      Inr (PyFloat (nearest_double (of_int b / 1024) / 1024 ^ 5), units ! 5)"
    by (rule size_top[OF b2 b3 y])
  then show ?thesis unfolding n by (simp add: b_def)
qed

lemma size_loop_last_below:
  "size_loop (PyInt (2 ^ 60 - 65)) [] units =
     Inr (PyFloat ((2 ^ 50 - 1 / 8) / 1024 ^ 4), units ! 5)"
proof -
  define b :: int where "b = 2 ^ 60 - 65"
  have q: "(of_int b / 1024 :: rat) = (2 ^ 60 - 65) / 1024" by (simp add: b_def)
  have n: "nearest_double (of_int b / 1024) = 2 ^ 50 - 1 / 8"
    unfolding q by (rule nearest_double_below_top)
  have b1: "1024 \<le> b" and b2: "b < 2 ^ 1034 - 2 ^ 980" by (simp_all add: b_def)
  have j2: "(1024 :: rat) ^ 4 \<le> nearest_double (of_int b / 1024)" unfolding n by simp
  have j3: "nearest_double (of_int b / 1024) < (1024 :: rat) ^ Suc 4" unfolding n by simp
  have l: "size_loop (PyInt b) '''' units =
      Inr (PyFloat (nearest_double (of_int b / 1024) / 1024 ^ 4), units ! Suc 4)"
    by (rule size_unit[OF b1 b2 _ j2 j3]) simp
  then show ?thesis unfolding n by (simp add: b_def)
qed

section \<open>Properties of the substitution functions, the size formatter and the orchestrator\<close>




text \<open>
  C2 does not hold as stated for the three memory sizes: an error of the formatting
  inside \<^verbatim>\<open>get_size\<close> is caught there, \<^verbatim>\<open>get_size\<close> returns the empty string, and the
  pass replaces the token by it. With a total of \<open>2 ^ 1034\<close> bytes the first division
  overflows and the token is erased from the text.
\<close>

theorem get_size_error_counterexample:
  "get_mem_total ''Mem: $memory_total$ end''
     (sample_host\<lparr>virtual_memory_result :=
        Inr \<lparr>total = 2 ^ 1034, available = 0, used = 0, percent = 0\<rparr>\<rparr>) =
   (Inr ''Mem:  end'',
    sample_host\<lparr>virtual_memory_result :=
        Inr \<lparr>total = 2 ^ 1034, available = 0, used = 0, percent = 0\<rparr>,
      events := [Call Virtual_memory, Warning ''Get size error'' OverflowError]\<rparr>)"
proof -
  define h where "h = sample_host\<lparr>virtual_memory_result :=
        Inr \<lparr>total = 2 ^ 1034, available = 0, used = 0, percent = 0\<rparr>\<rparr>"
  have vm: "virtual_memory_result h = Inr \<lparr>total = 2 ^ 1034, available = 0, used = 0, percent = 0\<rparr>"
    by (simp add: h_def)
  have ev: "events h = []" by (simp add: h_def sample_host_def)
  have sz: "size_text (total \<lparr>total = 2 ^ 1034, available = 0, used = 0, percent = 0\<rparr>) ''B'' =
      Inl OverflowError"
    using size_text_overflow[of "''B''"] by simp
  have st: "mem_size_status total h =
      (Inr [], h\<lparr>events := events h @ [Call Virtual_memory, Warning ''Get size error'' OverflowError]\<rparr>)"
    by (rule mem_size_status_swallows[of h
          "\<lparr>total = 2 ^ 1034, available = 0, used = 0, percent = 0\<rparr>" total OverflowError,
          OF vm sz])
  have "get_mem_total ''Mem: $memory_total$ end'' h =
      (Inr (replace ''Mem: $memory_total$ end'' ''$memory_total$'' []),
       h\<lparr>events := events h @ [Call Virtual_memory, Warning ''Get size error'' OverflowError]\<rparr>)"
    unfolding get_mem_total_def
    using st fill_success[of "''$memory_total$''" "''Mem: $memory_total$ end''"
        "mem_size_status total" h "[]"
        "h\<lparr>events := events h @ [Call Virtual_memory, Warning ''Get size error'' OverflowError]\<rparr>"
        "''Get mem total error''"]
    by simp
  then show ?thesis unfolding ev by (simp add: h_def)
qed

text \<open>
  C2: when the computation of the value raises (an accessor, or the formatting outside
  \<^verbatim>\<open>get_size\<close>), the function returns the text it was given, whole, and does not raise;
  if the token was present the only trace is the warning logged after the calls made so
  far. When the formatting fails inside \<^verbatim>\<open>get_size\<close>, for the total, available or used
  memory, nothing is raised either, but the token is replaced by the empty string and the
  warning is the one of \<^verbatim>\<open>get_size\<close>.
\<close>

theorem raised_error_leaves_input:
  "((codename, f, status, label) \<in> set placeholders \<and> status s = (Inl e, s') \<longrightarrow>
      (\<exists>s''. f text s = (Inr text, s'')) \<and>
      (contains codename text \<longrightarrow>
         f text s = (Inr text, s'\<lparr>events := events s' @ [Warning label e]\<rparr>))) \<and>
   ((codename', g, field) \<in> set [(''$memory_total$'', get_mem_total, total),
        (''$memory_available$'', get_mem_available, available),
        (''$memory_used$'', get_mem_used, used)] \<and>
    virtual_memory_result s = Inr m \<and> size_text (field m) ''B'' = Inl e' \<and>
    contains codename' text \<longrightarrow>
      g text s = (Inr (replace text codename' []),
        s\<lparr>events := events s @ [Call Virtual_memory, Warning ''Get size error'' e']\<rparr>))"
proof (intro conjI impI)
  assume a: "(codename, f, status, label) \<in> set placeholders \<and> status s = (Inl e, s')"
  then have f: "f = fill_placeholder codename status label" using placeholders_fill by blast
  show "\<exists>s''. f text s = (Inr text, s'')"
    using a fill_absent[of codename "text" status label s]
      fill_error[of codename "text" status s e s' label]
    unfolding f by (cases "contains codename text") auto
  assume "contains codename text"
  then show "f text s = (Inr text, s'\<lparr>events := events s' @ [Warning label e]\<rparr>)"
    using a fill_error[of codename "text" status s e s' label] unfolding f by simp
next
  assume a: "(codename', g, field) \<in> set [(''$memory_total$'', get_mem_total, total),
        (''$memory_available$'', get_mem_available, available),
        (''$memory_used$'', get_mem_used, used)] \<and>
    virtual_memory_result s = Inr m \<and> size_text (field m) ''B'' = Inl e' \<and>
    contains codename' text"
  then have g: "\<exists>label. g = fill_placeholder codename' (mem_size_status field) label"
    by (auto simp: get_mem_total_def get_mem_available_def get_mem_used_def)
  have st: "mem_size_status field s =
    (Inr [], s\<lparr>events := events s @ [Call Virtual_memory, Warning ''Get size error'' e']\<rparr>)"
    by (rule mem_size_status_swallows[of s m field e',
          OF a[THEN conjunct2, THEN conjunct1] a[THEN conjunct2, THEN conjunct2, THEN conjunct1]])
  from g obtain label' where "g = fill_placeholder codename' (mem_size_status field) label'"
    by blast
  then show "g text s = (Inr (replace text codename' []),
        s\<lparr>events := events s @ [Call Virtual_memory, Warning ''Get size error'' e']\<rparr>)"
    using a fill_success[of codename' "text" "mem_size_status field" s "[]" _ label'] st by simp
qed

theorem raised_error_leaves_input_witness:
  "get_hostname ''Host: $hostname$'' failing_host =
     (Inr ''Host: $hostname$'',
      failing_host\<lparr>events := [Call Gethostname,
        Warning ''Get hostname error'' (Exception ''gethostname'')]\<rparr>) \<and>
   get_mem_used ''Used: $memory_used$.''
     (sample_host\<lparr>virtual_memory_result :=
        Inr \<lparr>total = 0, available = 0, used = 2 ^ 1034, percent = 0\<rparr>\<rparr>) =
   (Inr ''Used: .'',
    sample_host\<lparr>virtual_memory_result :=
        Inr \<lparr>total = 0, available = 0, used = 2 ^ 1034, percent = 0\<rparr>,
      events := [Call Virtual_memory, Warning ''Get size error'' OverflowError]\<rparr>)"
proof -
  have m: "(''$hostname$'', get_hostname, gethostname, ''Get hostname error'') \<in> set placeholders"
    by (simp add: placeholders_def)
  have st: "gethostname failing_host =
      (Inl (Exception ''gethostname''), failing_host\<lparr>events := [Call Gethostname]\<rparr>)"
    by (simp add: gethostname_def call_def failing_host_def)
  have c: "contains ''$hostname$'' ''Host: $hostname$''" by simp
  note t1 = raised_error_leaves_input[of "''$hostname$''" get_hostname gethostname
      "''Get hostname error''" failing_host "Exception ''gethostname''"
      "failing_host\<lparr>events := [Call Gethostname]\<rparr>" "''Host: $hostname$''",
      THEN conjunct1, rule_format, OF conjI[OF m st], THEN conjunct2, rule_format, OF c]
  define h where "h = sample_host\<lparr>virtual_memory_result :=
        Inr \<lparr>total = 0, available = 0, used = 2 ^ 1034, percent = 0\<rparr>\<rparr>"
  have mem: "(''$memory_used$'', get_mem_used, used) \<in> set [(''$memory_total$'', get_mem_total, total),
        (''$memory_available$'', get_mem_available, available),
        (''$memory_used$'', get_mem_used, used)]" by simp
  have vm: "virtual_memory_result h = Inr \<lparr>total = 0, available = 0, used = 2 ^ 1034, percent = 0\<rparr>"
    by (simp add: h_def)
  have sz: "size_text (used \<lparr>total = 0, available = 0, used = 2 ^ 1034, percent = 0\<rparr>) ''B'' =
      Inl OverflowError"
    using size_text_overflow[of "''B''"] by simp
  have c2: "contains ''$memory_used$'' ''Used: $memory_used$.''" by simp
  note t2 = raised_error_leaves_input[of _ _ _ _ h _ _ "''Used: $memory_used$.''"
      "''$memory_used$''" get_mem_used used
      "\<lparr>total = 0, available = 0, used = 2 ^ 1034, percent = 0\<rparr>" OverflowError,
      THEN conjunct2, rule_format, OF conjI[OF mem conjI[OF vm conjI[OF sz c2]]]]
  have ev: "events h = []" by (simp add: h_def sample_host_def)
  from t1 t2 show ?thesis unfolding ev by (simp add: h_def failing_host_def)
qed

text \<open>
  C3: on a text that does not contain a function's token, that function returns the text
  unchanged and leaves the host untouched: no accessor is called and nothing is logged.
  Hence on a template with none of the tokens \<^verbatim>\<open>get_status\<close> returns the template, with
  no call made.
\<close>

theorem absent_token_no_fetch:
  "(\<forall>(codename, f, status, label) \<in> set placeholders.
      \<not> contains codename text \<longrightarrow> f text s = (Inr text, s)) \<and>
   ((\<forall>(codename, f, status, label) \<in> set placeholders. \<not> contains codename (glovar_report s))
      \<longrightarrow> get_status s = (Inr (glovar_report s), s))"
proof (intro conjI impI)
  show a: "\<forall>(codename, f, status, label) \<in> set placeholders.
      \<not> contains codename t \<longrightarrow> f t s = (Inr t, s)" for t
    using placeholders_fill fill_absent by fastforce
  assume h: "\<forall>(codename, f, status, label) \<in> set placeholders. \<not> contains codename (glovar_report s)"
  have "\<forall>f \<in> set passes. f (glovar_report s) s = (Inr (glovar_report s), s)"
    unfolding passes_placeholders using a[of "glovar_report s"] h by fastforce
  then have "run_passes passes (glovar_report s) s = ((glovar_report s, None), s)"
    by (rule run_passes_unchanged)
  then show "get_status s = (Inr (glovar_report s), s)"
    by (simp add: get_status_def status_with_def)
qed

theorem absent_token_no_fetch_witness:
  "get_hostname ''Up: $up_time$'' sample_host = (Inr ''Up: $up_time$'', sample_host) \<and>
   get_status (sample_host\<lparr>glovar_report := ''plain text''\<rparr>) =
     (Inr ''plain text'', sample_host\<lparr>glovar_report := ''plain text''\<rparr>)"
proof -
  have m: "(''$hostname$'', get_hostname, gethostname, ''Get hostname error'') \<in> set placeholders"
    by (simp add: placeholders_def)
  have n: "\<not> contains ''$hostname$'' ''Up: $up_time$''" by simp
  have h: "\<forall>(codename, f, status, label) \<in> set placeholders.
      \<not> contains codename (glovar_report (sample_host\<lparr>glovar_report := ''plain text''\<rparr>))"
    by (simp add: placeholders_def)
  have 1: "get_hostname ''Up: $up_time$'' sample_host = (Inr ''Up: $up_time$'', sample_host)"
    using absent_token_no_fetch[of "''Up: $up_time$''" sample_host] m n by fastforce
  have 2: "get_status (sample_host\<lparr>glovar_report := ''plain text''\<rparr>) =
     (Inr ''plain text'', sample_host\<lparr>glovar_report := ''plain text''\<rparr>)"
    using absent_token_no_fetch[of "''x''" "sample_host\<lparr>glovar_report := ''plain text''\<rparr>"] h
    by simp
  from 1 2 show ?thesis by simp
qed

text \<open>
  C4 does not hold for every non-negative byte count: from \<open>2 ^ 1034\<close> on, the first
  division \<^verbatim>\<open>b /= factor\<close> raises \<^verbatim>\<open>OverflowError\<close>, which \<^verbatim>\<open>get_size\<close> logs, and
  the result is the empty string.
\<close>

theorem get_size_overflow:
  "get_size (2 ^ 1034) ''B'' sample_host =
     (Inr '''', sample_host\<lparr>events := [Warning ''Get size error'' OverflowError]\<rparr>)"
  using get_size_Inl[OF size_text_overflow, of "''B''" sample_host]
  by (simp add: sample_host_def)

text \<open>
  C4: on a byte count \<open>b\<close> with \<open>0 \<le> b < 2 ^ 1034 - 2 ^ 980\<close>, \<^verbatim>\<open>get_size\<close> returns, with
  nothing logged, a value \<open>v\<close> printed with two decimals, a space, the unit prefix and the
  suffix. The number \<open>k\<close> of divisions by 1024 is 0 exactly when \<open>b < 1024\<close>, and is the
  least for which the value is below 1024, or 6; the value is \<open>b\<close> itself when \<open>k = 0\<close>,
  else the double nearest to \<open>b / 1024\<close> divided \<open>k - 1\<close> more times; the prefix is the
  one at position \<open>min k 5\<close> of none, K, M, G, T, P. In particular \<^verbatim>\<open>get_size(0)\<close> is
  \<^verbatim>\<open>0.00 B\<close>, \<^verbatim>\<open>get_size(1024)\<close> is \<^verbatim>\<open>1.00 KB\<close> and \<^verbatim>\<open>get_size(1024**4)\<close> is
  \<^verbatim>\<open>1.00 TB\<close>.
\<close>

theorem get_size_format:
  "(0 \<le> b \<and> b < 2 ^ 1034 - 2 ^ 980 \<longrightarrow>
      (\<exists>k v. k \<le> 6 \<and> (k = 0 \<longleftrightarrow> b < 1024) \<and>
         v = (if k = 0 then of_int b else nearest_double (of_int b / 1024) / 1024 ^ (k - 1)) \<and>
         (0 < k \<longrightarrow> 1 \<le> v) \<and> (k < 6 \<longrightarrow> v < 1024) \<and>
         (\<forall>i. 0 < i \<and> i < k \<longrightarrow> 1024 \<le> nearest_double (of_int b / 1024) / 1024 ^ (i - 1)) \<and>
         get_size b sfx s = (Inr (fixed_str 2 v @ '' '' @ units ! min k 5 @ sfx), s))) \<and>
   get_size 0 ''B'' s = (Inr ''0.00 B'', s) \<and>
   get_size 1024 ''B'' s = (Inr ''1.00 KB'', s) \<and>
   get_size (1024 ^ 4) ''B'' s = (Inr ''1.00 TB'', s)"
proof (intro conjI impI)
  assume a: "0 \<le> b \<and> b < 2 ^ 1034 - 2 ^ 980"
  from size_parts[OF a[THEN conjunct1] a[THEN conjunct2]] obtain k v num where q: "k \<le> 6 \<and>
     size_loop (PyInt b) [] units = Inr (num, units ! min k 5) \<and>
     float_of num = Inr v \<and>
     (k = 0 \<longleftrightarrow> b < 1024) \<and>
     v = (if k = 0 then of_int b else nearest_double (of_int b / 1024) / 1024 ^ (k - 1)) \<and>
     (0 < k \<longrightarrow> 1 \<le> v) \<and> (k < 6 \<longrightarrow> v < 1024) \<and>
     (\<forall>i. 0 < i \<and> i < k \<longrightarrow> 1024 \<le> nearest_double (of_int b / 1024) / 1024 ^ (i - 1)) \<and>
     num = (if k = 0 then PyInt b else PyFloat v)"
    by (elim exE)
  note p = q[THEN conjunct1]
    q[THEN conjunct2, THEN conjunct1]
    q[THEN conjunct2, THEN conjunct2, THEN conjunct1]
    q[THEN conjunct2, THEN conjunct2, THEN conjunct2, THEN conjunct1]
    q[THEN conjunct2, THEN conjunct2, THEN conjunct2, THEN conjunct2, THEN conjunct1]
    q[THEN conjunct2, THEN conjunct2, THEN conjunct2, THEN conjunct2, THEN conjunct2, THEN conjunct1]
    q[THEN conjunct2, THEN conjunct2, THEN conjunct2, THEN conjunct2, THEN conjunct2, THEN conjunct2, THEN conjunct1]
    q[THEN conjunct2, THEN conjunct2, THEN conjunct2, THEN conjunct2, THEN conjunct2, THEN conjunct2, THEN conjunct2, THEN conjunct1]
  have st: "size_text b sfx = Inr (fixed_str 2 v @ '' '' @ units ! min k 5 @ sfx)"
    by (rule size_text_parts[OF p(2) p(3)])
  have gs: "get_size b sfx s = (Inr (fixed_str 2 v @ '' '' @ units ! min k 5 @ sfx), s)"
    by (rule get_size_Inr[OF st])
  show "\<exists>k v. k \<le> 6 \<and> (k = 0 \<longleftrightarrow> b < 1024) \<and>
         v = (if k = 0 then of_int b else nearest_double (of_int b / 1024) / 1024 ^ (k - 1)) \<and>
         (0 < k \<longrightarrow> 1 \<le> v) \<and> (k < 6 \<longrightarrow> v < 1024) \<and>
         (\<forall>i. 0 < i \<and> i < k \<longrightarrow> 1024 \<le> nearest_double (of_int b / 1024) / 1024 ^ (i - 1)) \<and>
         get_size b sfx s = (Inr (fixed_str 2 v @ '' '' @ units ! min k 5 @ sfx), s)"
    apply (rule exI[of _ k], rule exI[of _ v])
    using p(1) p(4) p(5) p(6) p(7) p(8) gs by blast
next
  show "get_size 0 ''B'' s = (Inr ''0.00 B'', s)"
    using get_size_Inr[OF size_text_0, of "''B''" s] by simp
next
  show "get_size 1024 ''B'' s = (Inr ''1.00 KB'', s)"
    using get_size_Inr[OF size_text_1024, of "''B''" s] by simp
next
  show "get_size (1024 ^ 4) ''B'' s = (Inr ''1.00 TB'', s)"
    using get_size_Inr[OF size_text_tebibyte, of "''B''" s] by simp
qed

theorem get_size_format_witness:
  "(\<exists>k v. k \<le> 6 \<and> (k = 0 \<longleftrightarrow> (512 :: int) < 1024) \<and>
      v = (if k = 0 then of_int 512 else nearest_double (of_int 512 / 1024) / 1024 ^ (k - 1)) \<and>
      (0 < k \<longrightarrow> 1 \<le> v) \<and> (k < 6 \<longrightarrow> v < 1024) \<and>
      (\<forall>i. 0 < i \<and> i < k \<longrightarrow> 1024 \<le> nearest_double (of_int 512 / 1024) / 1024 ^ (i - 1)) \<and>
      get_size 512 ''B'' sample_host =
        (Inr (fixed_str 2 v @ '' '' @ units ! min k 5 @ ''B''), sample_host)) \<and>
   get_size 0 ''B'' sample_host = (Inr ''0.00 B'', sample_host) \<and>
   get_size 1024 ''B'' sample_host = (Inr ''1.00 KB'', sample_host) \<and>
   get_size (1024 ^ 4) ''B'' sample_host = (Inr ''1.00 TB'', sample_host)"
proof -
  have h: "0 \<le> (512 :: int) \<and> (512 :: int) < 2 ^ 1034 - 2 ^ 980" by simp
  note t = get_size_format[of 512 "''B''" sample_host]
  from t[THEN conjunct1, rule_format, OF h] t[THEN conjunct2] show ?thesis
    by (intro conjI) blast+
qed

text \<open>
  C5 does not hold for every pair: at \<^verbatim>\<open>1024**6\<close> the loop divides a sixth time and
  still labels the result with P. \<^verbatim>\<open>get_size(1024**6 - 65)\<close> is \<^verbatim>\<open>1024.00 PB\<close>, which
  denotes \<open>2 ^ 60\<close> bytes, and \<^verbatim>\<open>get_size(1024**6)\<close> is \<^verbatim>\<open>1.00 PB\<close>, which denotes
  \<open>2 ^ 50\<close> bytes.
\<close>

theorem get_size_not_monotonic:
  "get_size (2 ^ 60 - 65) ''B'' sample_host = (Inr ''1024.00 PB'', sample_host) \<and>
   get_size (2 ^ 60) ''B'' sample_host = (Inr ''1.00 PB'', sample_host) \<and>
   denoted_bytes (2 ^ 60 - 65) = Some (2 ^ 60) \<and>
   denoted_bytes (2 ^ 60) = Some (2 ^ 50)"
proof -
  have 1: "get_size (2 ^ 60 - 65) ''B'' sample_host = (Inr ''1024.00 PB'', sample_host)"
    using get_size_Inr[OF size_text_last_below, of "''B''" sample_host] by simp
  have "size_text (2 ^ 60) ''B'' = Inr (''1.00 P'' @ ''B'')"
    by (rule size_text_exbibyte) simp_all
  from get_size_Inr[OF this, of sample_host]
  have 2: "get_size (2 ^ 60) ''B'' sample_host = (Inr ''1.00 PB'', sample_host)" by simp
  define v :: rat where "v = (2 ^ 50 - 1 / 8) / 1024 ^ 4"
  have f: "float_of (PyFloat v) = Inr v" by simp
  have r: "round_half_even (v * 100) = 102400"
    by (rule rhe_eqI_up) (simp_all add: v_def)
  have "denoted_bytes (2 ^ 60 - 65) = Some (of_int (round_half_even (v * 100)) / 100 * 1024 ^ 5)"
    by (rule denoted_parts[OF size_loop_last_below[folded v_def] f]) (simp_all add: v_def)
  then have 3: "denoted_bytes (2 ^ 60 - 65) = Some (2 ^ 60)" unfolding r by simp
  have f1: "float_of (PyFloat 1) = Inr 1" by simp
  have r1: "round_half_even ((1 :: rat) * 100) = 100" using rhe_of_int[of 100] by simp
  have "denoted_bytes (2 ^ 60) = Some (of_int (round_half_even (1 * 100)) / 100 * 1024 ^ 5)"
    by (rule denoted_parts[OF size_loop_exbibyte f1]) simp_all
  then have 4: "denoted_bytes (2 ^ 60) = Some (2 ^ 50)" unfolding r1 by simp
  from 1 2 3 4 show ?thesis by blast
qed

text \<open>
  C5: \<^verbatim>\<open>get_size\<close> is monotonic on the byte counts up to \<open>2 ^ 60 - 65\<close>, those for which
  the loop divides at most five times. For \<open>0 \<le> a \<le> b \<le> 2 ^ 60 - 65\<close> both calls return
  a value printed with two decimals and the unit prefix at the position of the number of
  divisions, and the number printed for \<open>a\<close> times the multiple of its unit is at most the
  one for \<open>b\<close>: these are the byte quantities \<open>denoted_bytes\<close> gives.
\<close>

theorem get_size_monotonic_below_top:
  "0 \<le> a \<Longrightarrow> a \<le> b \<Longrightarrow> b \<le> 2 ^ 60 - 65 \<Longrightarrow>
   \<exists>ka va kb vb. ka \<le> 5 \<and> kb \<le> 5 \<and>
     get_size a sfx s = (Inr (fixed_str 2 va @ '' '' @ units ! ka @ sfx), s) \<and>
     get_size b sfx s = (Inr (fixed_str 2 vb @ '' '' @ units ! kb @ sfx), s) \<and>
     denoted_bytes a = Some (of_int (round_half_even (va * 100)) / 100 * 1024 ^ ka) \<and>
     denoted_bytes b = Some (of_int (round_half_even (vb * 100)) / 100 * 1024 ^ kb) \<and>
     (of_int (round_half_even (va * 100)) / 100 * 1024 ^ ka :: rat) \<le>
       of_int (round_half_even (vb * 100)) / 100 * 1024 ^ kb"
proof -
  assume a0: "0 \<le> a" and ab: "a \<le> b" and bt: "b \<le> 2 ^ 60 - 65"
  have b0: "0 \<le> b" and at: "a \<le> 2 ^ 60 - 65" using a0 ab bt by simp_all
  from size_denoted[OF a0 at, of sfx] obtain ka va where qa:
    "ka \<le> 5 \<and> 0 \<le> va \<and> va < 1024 \<and> (ka = 0 \<longleftrightarrow> a < 1024) \<and>
     va = (if ka = 0 then of_int a else nearest_double (of_int a / 1024) / 1024 ^ (ka - 1)) \<and>
     (0 < ka \<longrightarrow> 1 \<le> va) \<and>
     (\<forall>i. 0 < i \<and> i < ka \<longrightarrow> 1024 \<le> nearest_double (of_int a / 1024) / 1024 ^ (i - 1)) \<and>
     size_text a sfx = Inr (fixed_str 2 va @ '' '' @ units ! ka @ sfx) \<and>
     denoted_bytes a = Some (of_int (round_half_even (va * 100)) / 100 * 1024 ^ ka)"
    by (elim exE)
  from size_denoted[OF b0 bt, of sfx] obtain kb vb where qb:
    "kb \<le> 5 \<and> 0 \<le> vb \<and> vb < 1024 \<and> (kb = 0 \<longleftrightarrow> b < 1024) \<and>
     vb = (if kb = 0 then of_int b else nearest_double (of_int b / 1024) / 1024 ^ (kb - 1)) \<and>
     (0 < kb \<longrightarrow> 1 \<le> vb) \<and>
     (\<forall>i. 0 < i \<and> i < kb \<longrightarrow> 1024 \<le> nearest_double (of_int b / 1024) / 1024 ^ (i - 1)) \<and>
     size_text b sfx = Inr (fixed_str 2 vb @ '' '' @ units ! kb @ sfx) \<and>
     denoted_bytes b = Some (of_int (round_half_even (vb * 100)) / 100 * 1024 ^ kb)"
    by (elim exE)
  note pa = qa[THEN conjunct1]
    qa[THEN conjunct2, THEN conjunct1]
    qa[THEN conjunct2, THEN conjunct2, THEN conjunct1]
    qa[THEN conjunct2, THEN conjunct2, THEN conjunct2, THEN conjunct1]
    qa[THEN conjunct2, THEN conjunct2, THEN conjunct2, THEN conjunct2, THEN conjunct1]
    qa[THEN conjunct2, THEN conjunct2, THEN conjunct2, THEN conjunct2, THEN conjunct2, THEN conjunct1]
    qa[THEN conjunct2, THEN conjunct2, THEN conjunct2, THEN conjunct2, THEN conjunct2, THEN conjunct2, THEN conjunct1]
    qa[THEN conjunct2, THEN conjunct2, THEN conjunct2, THEN conjunct2, THEN conjunct2, THEN conjunct2, THEN conjunct2, THEN conjunct1]
    qa[THEN conjunct2, THEN conjunct2, THEN conjunct2, THEN conjunct2, THEN conjunct2, THEN conjunct2, THEN conjunct2, THEN conjunct2]
  note pb = qb[THEN conjunct1]
    qb[THEN conjunct2, THEN conjunct1]
    qb[THEN conjunct2, THEN conjunct2, THEN conjunct1]
    qb[THEN conjunct2, THEN conjunct2, THEN conjunct2, THEN conjunct1]
    qb[THEN conjunct2, THEN conjunct2, THEN conjunct2, THEN conjunct2, THEN conjunct1]
    qb[THEN conjunct2, THEN conjunct2, THEN conjunct2, THEN conjunct2, THEN conjunct2, THEN conjunct1]
    qb[THEN conjunct2, THEN conjunct2, THEN conjunct2, THEN conjunct2, THEN conjunct2, THEN conjunct2, THEN conjunct1]
    qb[THEN conjunct2, THEN conjunct2, THEN conjunct2, THEN conjunct2, THEN conjunct2, THEN conjunct2, THEN conjunct2, THEN conjunct1]
    qb[THEN conjunct2, THEN conjunct2, THEN conjunct2, THEN conjunct2, THEN conjunct2, THEN conjunct2, THEN conjunct2, THEN conjunct2]
  have le: "(of_int (round_half_even (va * 100)) / 100 * 1024 ^ ka :: rat) \<le>
       of_int (round_half_even (vb * 100)) / 100 * 1024 ^ kb"
    by (rule denoted_le[OF ab a0 pa(4) pb(4) pa(5) pb(5) pa(6) pb(6) pa(3) pb(3) pa(7)])
  have ga: "get_size a sfx s = (Inr (fixed_str 2 va @ '' '' @ units ! ka @ sfx), s)"
    by (rule get_size_Inr[OF pa(8)])
  have gb: "get_size b sfx s = (Inr (fixed_str 2 vb @ '' '' @ units ! kb @ sfx), s)"
    by (rule get_size_Inr[OF pb(8)])
  show ?thesis
    apply (rule exI[of _ ka], rule exI[of _ va], rule exI[of _ kb], rule exI[of _ vb])
    using pa(1) pb(1) ga gb pa(9) pb(9) le by blast
qed

theorem get_size_monotonic_below_top_witness:
  "\<exists>ka va kb vb. ka \<le> 5 \<and> kb \<le> 5 \<and>
     get_size 1000 ''B'' sample_host =
       (Inr (fixed_str 2 va @ '' '' @ units ! ka @ ''B''), sample_host) \<and>
     get_size 2000 ''B'' sample_host =
       (Inr (fixed_str 2 vb @ '' '' @ units ! kb @ ''B''), sample_host) \<and>
     denoted_bytes 1000 = Some (of_int (round_half_even (va * 100)) / 100 * 1024 ^ ka) \<and>
     denoted_bytes 2000 = Some (of_int (round_half_even (vb * 100)) / 100 * 1024 ^ kb) \<and>
     (of_int (round_half_even (va * 100)) / 100 * 1024 ^ ka :: rat) \<le>
       of_int (round_half_even (vb * 100)) / 100 * 1024 ^ kb"
  by (rule get_size_monotonic_below_top[of 1000 2000 "''B''" sample_host]) simp_all

text \<open>
  C6: \<^verbatim>\<open>get_status\<close> returns a string on every host, whatever its accessors do: the
  result of running all the passes. The \<^verbatim>\<open>try\<close> block around the passes returns a
  string for any list of passes: the value \<^verbatim>\<open>result\<close> had when the run stopped, which
  is the result of the passes before the first one that raised (the template if it was
  the first).
\<close>

theorem get_status_never_raises:
  "(\<exists>r s'. get_status s = (Inr r, s') \<and> run_passes passes (glovar_report s) s = ((r, None), s')) \<and>
   (\<exists>r s'. status_with fs s = (Inr r, s') \<and> fst (fst (run_passes fs (glovar_report s) s)) = r) \<and>
   (run_passes fs (glovar_report s) s = ((r1, None), s1) \<and> g r1 s1 = (Inl e, s2) \<longrightarrow>
      status_with (fs @ g # gs) s =
        (Inr r1, s2\<lparr>events := events s2 @ [Warning ''Get status error'' e]\<rparr>))"
proof (intro conjI impI)
  obtain r s' where "run_passes passes (glovar_report s) s = ((r, None), s')"
    using run_passes_total[of passes] passes_return by blast
  then show "\<exists>r s'. get_status s = (Inr r, s') \<and>
      run_passes passes (glovar_report s) s = ((r, None), s')"
    by (simp add: get_status_def status_with_def)
  show "\<exists>r s'. status_with fs s = (Inr r, s') \<and> fst (fst (run_passes fs (glovar_report s) s)) = r"
    by (rule status_with_returns)
  assume "run_passes fs (glovar_report s) s = ((r1, None), s1) \<and> g r1 s1 = (Inl e, s2)"
  then have "run_passes (fs @ g # gs) (glovar_report s) s = ((r1, Some e), s2)"
    using run_passes_append_raise by blast
  then show "status_with (fs @ g # gs) s =
        (Inr r1, s2\<lparr>events := events s2 @ [Warning ''Get status error'' e]\<rparr>)"
    by (simp add: status_with_def py_bind_def logger_warning_def py_return_def)
qed

lemma get_hostname_sample:
  "get_hostname ''Host: $hostname$'' sample_host =
     (Inr ''Host: host'', sample_host\<lparr>events := [Call Gethostname]\<rparr>)"
  by (simp add: get_hostname_def fill_placeholder_def try_except_def py_bind_def py_return_def
      gethostname_def call_def sample_host_def)

theorem get_status_never_raises_witness:
  "status_with [get_hostname, \<lambda>t. py_raise (Exception ''boom''), get_kernel] sample_host =
     (Inr ''Host: host'',
      sample_host\<lparr>events := [Call Gethostname, Warning ''Get status error'' (Exception ''boom'')]\<rparr>)"
proof -
  have r: "run_passes [get_hostname] (glovar_report sample_host) sample_host =
      ((''Host: host'', None), sample_host\<lparr>events := [Call Gethostname]\<rparr>)"
    using get_hostname_sample by (simp add: sample_host_def)
  have g: "(\<lambda>t. py_raise (Exception ''boom'')) ''Host: host''
      (sample_host\<lparr>events := [Call Gethostname]\<rparr>) =
      (Inl (Exception ''boom''), sample_host\<lparr>events := [Call Gethostname]\<rparr>)"
    by (simp add: py_raise_def)
  note th = get_status_never_raises[of sample_host "[get_hostname]" "''Host: host''"
      "sample_host\<lparr>events := [Call Gethostname]\<rparr>" "\<lambda>t. py_raise (Exception ''boom'')"
      "Exception ''boom''" "sample_host\<lparr>events := [Call Gethostname]\<rparr>" "[get_kernel]",
      THEN conjunct2, THEN conjunct2, rule_format]
  from th[OF conjI[OF r g]] show ?thesis by simp
qed

text \<open>
  C7 does not hold as stated: the value put in place of the token can complete a new
  occurrence of it with the characters around, and the second application replaces that
  one. With the host name \<^verbatim>\<open>host\<close>, \<^verbatim>\<open>get_hostname\<close> maps \<^verbatim>\<open>$$hostname$name$\<close> to
  \<^verbatim>\<open>$hostname$\<close> and that to \<^verbatim>\<open>host\<close>.
\<close>

theorem second_pass_changes_result:
  "get_hostname ''$$hostname$name$'' sample_host =
     (Inr ''$hostname$'', sample_host\<lparr>events := [Call Gethostname]\<rparr>) \<and>
   get_hostname ''$hostname$'' (sample_host\<lparr>events := [Call Gethostname]\<rparr>) =
     (Inr ''host'', sample_host\<lparr>events := [Call Gethostname, Call Gethostname]\<rparr>)"
proof -
  have st: "gethostname sample_host = (Inr ''host'', sample_host\<lparr>events := [Call Gethostname]\<rparr>)"
    by (simp add: gethostname_def call_def sample_host_def)
  have st2: "gethostname (sample_host\<lparr>events := [Call Gethostname]\<rparr>) =
      (Inr ''host'', sample_host\<lparr>events := [Call Gethostname, Call Gethostname]\<rparr>)"
    by (simp add: gethostname_def call_def sample_host_def)
  have 1: "get_hostname ''$$hostname$name$'' sample_host =
     (Inr ''$hostname$'', sample_host\<lparr>events := [Call Gethostname]\<rparr>)"
    unfolding get_hostname_def
    using st fill_success[of "''$hostname$''" "''$$hostname$name$''" gethostname sample_host
        "''host''" "sample_host\<lparr>events := [Call Gethostname]\<rparr>" "''Get hostname error''"]
    by simp
  have 2: "get_hostname ''$hostname$'' (sample_host\<lparr>events := [Call Gethostname]\<rparr>) =
     (Inr ''host'', sample_host\<lparr>events := [Call Gethostname, Call Gethostname]\<rparr>)"
    unfolding get_hostname_def
    using st2 fill_success[of "''$hostname$''" "''$hostname$''" gethostname
        "sample_host\<lparr>events := [Call Gethostname]\<rparr>"
        "''host''" "sample_host\<lparr>events := [Call Gethostname, Call Gethostname]\<rparr>"
        "''Get hostname error''"]
    by simp
  show ?thesis using 1 2 by simp
qed

text \<open>
  C7: a field substitution function applied to a result of its own that no longer contains
  the token returns it unchanged and touches nothing, on any host. The result no longer
  contains the token whenever the value was computed, is not empty and shares no character
  with the token; then the second application is a no-op.
\<close>

theorem second_pass_noop:
  "(codename, f, status, label) \<in> set placeholders \<Longrightarrow> f text s = (Inr r, s1) \<Longrightarrow>
   (\<not> contains codename r \<longrightarrow> f r s2 = (Inr r, s2)) \<and>
   (status s = (Inr v, s') \<and> v \<noteq> [] \<and> set v \<inter> set codename = {} \<longrightarrow>
      \<not> contains codename r \<and> f r s2 = (Inr r, s2))"
proof -
  assume m: "(codename, f, status, label) \<in> set placeholders"
    and r: "f text s = (Inr r, s1)"
  have f: "f = fill_placeholder codename status label" and ne: "codename \<noteq> []"
    using placeholders_fill[OF m] by simp_all
  have a: "\<not> contains codename r \<Longrightarrow> f r s2 = (Inr r, s2)"
    unfolding f by (rule fill_absent)
  have b: "\<not> contains codename r"
    if h: "status s = (Inr v, s') \<and> v \<noteq> [] \<and> set v \<inter> set codename = {}"
  proof (cases "contains codename text")
    case False
    then have "f text s = (Inr text, s)" unfolding f by (rule fill_absent)
    with r False show ?thesis by simp
  next
    case True
    have "f text s = (Inr (replace text codename v), s')"
      unfolding f using True h fill_success[of codename "text" status s v s' label] by simp
    with r have "r = replace text codename v" by simp
    then show ?thesis using token_gone[of codename v "text"] ne h by simp
  qed
  show ?thesis using a b by blast
qed

theorem second_pass_noop_witness:
  "get_kernel ''Kernel: $kernel$'' sample_host =
     (Inr ''Kernel: 6.1.0'', sample_host\<lparr>events := [Call Uname]\<rparr>) \<and>
   \<not> contains ''$kernel$'' ''Kernel: 6.1.0'' \<and>
   get_kernel ''Kernel: 6.1.0'' (sample_host\<lparr>events := [Call Uname]\<rparr>) =
     (Inr ''Kernel: 6.1.0'', sample_host\<lparr>events := [Call Uname]\<rparr>)"
proof -
  have m: "(''$kernel$'', get_kernel, uname_release, ''Get kernel error'') \<in> set placeholders"
    by (simp add: placeholders_def)
  have st: "uname_release sample_host = (Inr ''6.1.0'', sample_host\<lparr>events := [Call Uname]\<rparr>)"
    by (simp add: uname_release_call sample_host_def)
  have r: "get_kernel ''Kernel: $kernel$'' sample_host =
     (Inr ''Kernel: 6.1.0'', sample_host\<lparr>events := [Call Uname]\<rparr>)"
    unfolding get_kernel_def
    using st fill_success[of "''$kernel$''" "''Kernel: $kernel$''" uname_release sample_host
        "''6.1.0''" "sample_host\<lparr>events := [Call Uname]\<rparr>" "''Get kernel error''"]
    by simp
  have h: "uname_release sample_host = (Inr ''6.1.0'', sample_host\<lparr>events := [Call Uname]\<rparr>) \<and>
      ''6.1.0'' \<noteq> [] \<and> set ''6.1.0'' \<inter> set ''$kernel$'' = {}"
    using st by simp
  note t = second_pass_noop[OF m r, of "sample_host\<lparr>events := [Call Uname]\<rparr>" "''6.1.0''"
      "sample_host\<lparr>events := [Call Uname]\<rparr>", THEN conjunct2, rule_format, OF h]
  from r t show ?thesis by simp
qed

text \<open>
  C8 does not hold as stated: the line written for a core has a tab between the core
  label and the index, which the template \<^verbatim>\<open>\t\t\t\t<core><index><colon><percent>%\<close>
  does not have. For one core at 1.5 percent, with the label \<^verbatim>\<open>Core\<close>, the colon
  \<^verbatim>\<open>:\<close> and a \<^verbatim>\<open>code\<close> that returns its argument, the block is four tabs,
  \<^verbatim>\<open>Core\<close>, a tab and \<^verbatim>\<open>1:1.5%\<close>.
\<close>

theorem core_line_has_tab:
  "fst (get_cpu_usage_per ''$cpu_percent_per$''
         (sample_host\<lparr>cpu_percent_percpu_result := Inr [3 / 2]\<rparr>)) =
     Inr (replicate 4 (CHR 0x09) @ ''Core'' @ [CHR 0x09] @ ''1:1.5%'') \<and>
   template_line ''Core'' '':'' 1 ''1.5'' = replicate 4 (CHR 0x09) @ ''Core'' @ ''1:1.5%'' \<and>
   replicate 4 (CHR 0x09) @ ''Core'' @ [CHR 0x09] @ ''1:1.5%'' \<noteq>
     template_line ''Core'' '':'' 1 ''1.5''"
proof -
  define h where "h = sample_host\<lparr>cpu_percent_percpu_result := Inr [3 / 2]\<rparr>"
  have 1: "cpu_percent_percpu_result h = Inr [3 / 2]" by (simp add: h_def)
  have 2: "lang_result h ''core'' = Inr ''Core''" by (simp add: h_def sample_host_def)
  have 3: "lang_result h ''colon'' = Inr '':''" by (simp add: h_def sample_host_def)
  have 4: "\<forall>x \<in> set [3 / 2 :: rat]. code_result h (float_str h x @ ''%'') = Inr (float_str h x @ ''%'')"
    by (simp add: h_def sample_host_def)
  obtain s' where st: "cpu_usage_per_status h =
     (Inr (join [CHR 0x0A]
        (map (\<lambda>p. core_line ''Core'' '':'' (int (fst p) + 1) (float_str h (snd p) @ ''%''))
           (enumerate 0 [3 / 2]))), s')"
    using cpu_usage_per_status_result[of h "[3 / 2]" "''Core''" "'':''" "\<lambda>x. float_str h x @ ''%''",
        OF 1 2 3 4] by blast
  have fs: "float_str h (3 / 2) = ''1.5''" using fixed_str_1_5 by (simp add: h_def sample_host_def)
  have v: "join [CHR 0x0A]
        (map (\<lambda>p. core_line ''Core'' '':'' (int (fst p) + 1) (float_str h (snd p) @ ''%''))
           (enumerate 0 [3 / 2])) = replicate 4 (CHR 0x09) @ ''Core'' @ [CHR 0x09] @ ''1:1.5%''"
    by (simp add: core_line_def fs str_int_1)
  have c: "contains ''$cpu_percent_per$'' ''$cpu_percent_per$''" by simp
  have "get_cpu_usage_per ''$cpu_percent_per$'' h =
      (Inr (replace ''$cpu_percent_per$'' ''$cpu_percent_per$''
         (replicate 4 (CHR 0x09) @ ''Core'' @ [CHR 0x09] @ ''1:1.5%'')), s')"
    unfolding get_cpu_usage_per_def
    using c st[unfolded v]
      fill_success[of "''$cpu_percent_per$''" "''$cpu_percent_per$''" cpu_usage_per_status h
        "replicate 4 (CHR 0x09) @ ''Core'' @ [CHR 0x09] @ ''1:1.5%''" s'
        "''Get cpu usage per error''"]
    by simp
  then have a: "fst (get_cpu_usage_per ''$cpu_percent_per$'' h) =
     Inr (replicate 4 (CHR 0x09) @ ''Core'' @ [CHR 0x09] @ ''1:1.5%'')"
    by simp
  have b: "template_line ''Core'' '':'' 1 ''1.5'' = replicate 4 (CHR 0x09) @ ''Core'' @ ''1:1.5%''"
    by (simp add: template_line_def str_int_1)
  show ?thesis using a unfolding b h_def by simp
qed

text \<open>
  C8: when \<^verbatim>\<open>$cpu_percent_per$\<close> is present and the per-core sample, the two
  localization lookups and the calls of \<^verbatim>\<open>code\<close> succeed, the token is replaced by a
  block with one line per reported core, in order, joined by newlines with none after the
  last line. The line of the core at position \<open>i\<close> (from 0) is four tabs, the core label,
  a tab, the index \<open>i + 1\<close>, the colon glyph, and what \<^verbatim>\<open>code\<close> returns for the
  percentage followed by a percent sign.
\<close>

theorem per_core_block:
  "contains ''$cpu_percent_per$'' text \<Longrightarrow> cpu_percent_percpu_result s = Inr xs \<Longrightarrow>
   lang_result s ''core'' = Inr core \<Longrightarrow> lang_result s ''colon'' = Inr colon \<Longrightarrow>
   (\<forall>x \<in> set xs. code_result s (float_str s x @ ''%'') = Inr (c x)) \<Longrightarrow>
   fst (get_cpu_usage_per text s) =
     Inr (replace text ''$cpu_percent_per$''
       (join [CHR 0x0A]
          (map (\<lambda>i. replicate 4 (CHR 0x09) @ core @ [CHR 0x09] @ str_int (int i + 1) @ colon
                      @ c (xs ! i)) [0..<length xs]))) \<and>
   length (map (\<lambda>i. replicate 4 (CHR 0x09) @ core @ [CHR 0x09] @ str_int (int i + 1) @ colon
                      @ c (xs ! i)) [0..<length xs]) = length xs"
proof -
  assume t: "contains ''$cpu_percent_per$'' text" and 1: "cpu_percent_percpu_result s = Inr xs"
    and 2: "lang_result s ''core'' = Inr core" and 3: "lang_result s ''colon'' = Inr colon"
    and 4: "\<forall>x \<in> set xs. code_result s (float_str s x @ ''%'') = Inr (c x)"
  define block where "block = join [CHR 0x0A]
          (map (\<lambda>i. replicate 4 (CHR 0x09) @ core @ [CHR 0x09] @ str_int (int i + 1) @ colon
                      @ c (xs ! i)) [0..<length xs])"
  have e: "map (\<lambda>p. core_line core colon (int (fst p) + 1) (c (snd p))) (enumerate 0 xs) =
      map (\<lambda>i. replicate 4 (CHR 0x09) @ core @ [CHR 0x09] @ str_int (int i + 1) @ colon
                      @ c (xs ! i)) [0..<length xs]"
    using map_enumerate_nth[of "\<lambda>i x. core_line core colon (int i + 1) (c x)" xs]
    by (simp add: core_line_def)
  obtain s' where st: "cpu_usage_per_status s = (Inr block, s')"
    using cpu_usage_per_status_result[OF 1 2 3 4] unfolding e block_def by blast
  have "get_cpu_usage_per text s = (Inr (replace text ''$cpu_percent_per$'' block), s')"
    unfolding get_cpu_usage_per_def
    using t st fill_success[of "''$cpu_percent_per$''" "text" cpu_usage_per_status s block s'
        "''Get cpu usage per error''"]
    by simp
  then show ?thesis unfolding block_def by simp
qed

theorem per_core_block_witness:
  "fst (get_cpu_usage_per ''Cores:$cpu_percent_per$''
     (sample_host\<lparr>float_str := (\<lambda>x. if x = 20 then ''20.0'' else ''1.5'')\<rparr>)) =
   Inr (''Cores:'' @ replicate 4 (CHR 0x09) @ ''Core'' @ [CHR 0x09] @ ''1:1.5%'' @ [CHR 0x0A]
        @ replicate 4 (CHR 0x09) @ ''Core'' @ [CHR 0x09] @ ''2:20.0%'')"
proof -
  define h where "h = sample_host\<lparr>float_str := (\<lambda>x. if x = 20 then ''20.0'' else ''1.5'')\<rparr>"
  have t: "contains ''$cpu_percent_per$'' ''Cores:$cpu_percent_per$''" by simp
  have 1: "cpu_percent_percpu_result h = Inr [3 / 2, 20]" by (simp add: h_def sample_host_def)
  have 2: "lang_result h ''core'' = Inr ''Core''" by (simp add: h_def sample_host_def)
  have 3: "lang_result h ''colon'' = Inr '':''" by (simp add: h_def sample_host_def)
  have 4: "\<forall>x \<in> set [3 / 2, 20 :: rat].
      code_result h (float_str h x @ ''%'') = Inr ((\<lambda>x. float_str h x @ ''%'') x)"
    by (simp add: h_def sample_host_def)
  have two: "str_int 2 = ''2''" by (simp add: str_int_def digits_small digit_char_def)
  have u: "[0..<2] = [0, 1]" by (simp add: upt_rec)
  from per_core_block[OF t 1 2 3 4] show ?thesis
    unfolding h_def[symmetric] by (simp add: h_def u str_int_1 two)
qed

text \<open>
  C9 does not hold at \<^verbatim>\<open>1024**6 - 1\<close>: the first division is a float division, and the
  double nearest to \<open>(2 ^ 60 - 1) / 1024\<close> is \<open>2 ^ 50\<close>, so the loop divides six times and
  the result is \<^verbatim>\<open>1.00 PB\<close>, not \<^verbatim>\<open>1024.00 PB\<close>.
\<close>

theorem get_size_below_exbibyte:
  "get_size (1024 ^ 6 - 1) ''B'' sample_host = (Inr ''1.00 PB'', sample_host)"
proof -
  have "size_text (1024 ^ 6 - 1) ''B'' = Inr (''1.00 P'' @ ''B'')"
    by (rule size_text_exbibyte) simp_all
  from get_size_Inr[OF this, of sample_host] show ?thesis by simp
qed

text \<open>
  C9: for every byte count \<open>b\<close> with \<open>2 ^ 60 - 64 \<le> b < 2 ^ 1034 - 2 ^ 980\<close>,
  \<^verbatim>\<open>get_size\<close> divides six times and labels the result with the unit P: it returns the
  double nearest to \<open>b / 1024\<close>, divided by \<open>1024 ^ 5\<close>, printed with two decimals and
  followed by \<^verbatim>\<open> P\<close> and the suffix. From \<open>1024 ^ 6\<close> on that value is the double nearest
  to \<open>b / 1024 ^ 6\<close>. In particular \<^verbatim>\<open>get_size(1024**6)\<close> is \<^verbatim>\<open>1.00 PB\<close>, and the last
  byte count printed as \<^verbatim>\<open>1024.00 PB\<close> before that is \<^verbatim>\<open>1024**6 - 65\<close>.
\<close>

theorem get_size_top_unit:
  "(2 ^ 60 - 64 \<le> b \<and> b < 2 ^ 1034 - 2 ^ 980 \<longrightarrow>
      get_size b sfx s =
        (Inr (fixed_str 2 (nearest_double (of_int b / 1024) / 1024 ^ 5) @ '' P'' @ sfx), s) \<and>
      (1024 ^ 6 \<le> b \<longrightarrow>
         nearest_double (of_int b / 1024) / 1024 ^ 5 = nearest_double (of_int b / 1024 ^ 6))) \<and>
   get_size (1024 ^ 6) ''B'' s = (Inr ''1.00 PB'', s) \<and>
   get_size (1024 ^ 6 - 65) ''B'' s = (Inr ''1024.00 PB'', s)"
proof (intro conjI impI)
  assume a: "2 ^ 60 - 64 \<le> b \<and> b < 2 ^ 1034 - 2 ^ 980"
  show "get_size b sfx s =
        (Inr (fixed_str 2 (nearest_double (of_int b / 1024) / 1024 ^ 5) @ '' P'' @ sfx), s)"
    by (rule get_size_Inr[OF size_text_top[OF a[THEN conjunct1] a[THEN conjunct2]]])
  assume "1024 ^ 6 \<le> b"
  then have "2 ^ 60 \<le> b" by simp
  then show "nearest_double (of_int b / 1024) / 1024 ^ 5 = nearest_double (of_int b / 1024 ^ 6)"
    by (rule scale_six)
next
  have "size_text (1024 ^ 6) ''B'' = Inr (''1.00 P'' @ ''B'')"
    by (rule size_text_exbibyte) simp_all
  from get_size_Inr[OF this, of s] show "get_size (1024 ^ 6) ''B'' s = (Inr ''1.00 PB'', s)"
    by simp
next
  have e: "(1024 :: int) ^ 6 - 65 = 2 ^ 60 - 65" by simp
  from get_size_Inr[OF size_text_last_below, of "''B''" s]
  show "get_size (1024 ^ 6 - 65) ''B'' s = (Inr ''1024.00 PB'', s)"
    unfolding e by simp
qed

theorem get_size_top_unit_witness:
  "get_size (3 * 1024 ^ 6) ''B'' sample_host = (Inr ''3.00 PB'', sample_host) \<and>
   get_size (1024 ^ 6) ''B'' sample_host = (Inr ''1.00 PB'', sample_host) \<and>
   get_size (1024 ^ 6 - 65) ''B'' sample_host = (Inr ''1024.00 PB'', sample_host)"
proof -
  define b :: int where "b = 3 * 1024 ^ 6"
  have h: "2 ^ 60 - 64 \<le> b \<and> b < 2 ^ 1034 - 2 ^ 980" by (simp add: b_def)
  have g: "1024 ^ 6 \<le> b" by (simp add: b_def)
  note t = get_size_top_unit[of b "''B''" sample_host]
  note t1 = t[THEN conjunct1, rule_format, OF h]
  have q: "(of_int b / 1024 ^ 6 :: rat) = of_int 3" by (simp add: b_def)
  have "nearest_double (of_int b / 1024) / 1024 ^ 5 = nearest_double (of_int b / 1024 ^ 6)"
    by (rule t1[THEN conjunct2, rule_format, OF g])
  also have "\<dots> = 3" unfolding q using nearest_double_of_int[of 3] by simp
  finally have v: "nearest_double (of_int b / 1024) / 1024 ^ 5 = 3" .
  have "round_half_even ((3 :: rat) * 100) = 300" using rhe_of_int[of 300] by simp
  from fixed_str_2[OF _ this] have f: "fixed_str 2 3 = ''3.00''"
    by (simp add: str_int_def digits_small digit_char_def zero_pad_def)
  have 1: "get_size b ''B'' sample_host = (Inr ''3.00 PB'', sample_host)"
    using t1[THEN conjunct1] unfolding v f by simp
  from 1 t[THEN conjunct2] show ?thesis unfolding b_def by simp
qed

text \<open>
  C10 does not hold as stated: removing the token can bring the two sides of an occurrence
  together into a new occurrence, which stays in the output as literal text.
\<close>

theorem empty_sample_token_reappears:
  "get_cpu_usage_per ''$cpu_percent$cpu_percent_per$_per$''
     (sample_host\<lparr>cpu_percent_percpu_result := Inr []\<rparr>) =
   (Inr ''$cpu_percent_per$'',
    sample_host\<lparr>cpu_percent_percpu_result := Inr [], events := [Call Cpu_percent_percpu]\<rparr>)"
proof -
  define h where "h = sample_host\<lparr>cpu_percent_percpu_result := Inr []\<rparr>"
  have e: "cpu_percent_percpu_result h = Inr []" by (simp add: h_def)
  have ev: "events h = []" by (simp add: h_def sample_host_def)
  have c: "contains ''$cpu_percent_per$'' ''$cpu_percent$cpu_percent_per$_per$''" by simp
  have "get_cpu_usage_per ''$cpu_percent$cpu_percent_per$_per$'' h =
      (Inr (replace ''$cpu_percent$cpu_percent_per$_per$'' ''$cpu_percent_per$'' []),
       h\<lparr>events := events h @ [Call Cpu_percent_percpu]\<rparr>)"
    unfolding get_cpu_usage_per_def
    using c cpu_usage_per_status_empty[OF e]
      fill_success[of "''$cpu_percent_per$''" "''$cpu_percent$cpu_percent_per$_per$''"
        cpu_usage_per_status h "[]" "h\<lparr>events := events h @ [Call Cpu_percent_percpu]\<rparr>"
        "''Get cpu usage per error''"]
    by simp
  then show ?thesis unfolding ev by (simp add: h_def)
qed

text \<open>
  C10: when the token is present and the per-core sample is an empty list,
  \<^verbatim>\<open>get_cpu_usage_per\<close> replaces the token by the empty string at the occurrences found
  by the scan from the left: the text is its pieces joined by the token, the result is the
  pieces put end to end, and no piece contains the token. Nothing is logged.
\<close>

theorem empty_sample_removes_scanned_occurrences:
  "contains ''$cpu_percent_per$'' text \<Longrightarrow> cpu_percent_percpu_result s = Inr [] \<Longrightarrow>
   get_cpu_usage_per text s =
     (Inr (replace text ''$cpu_percent_per$'' []),
      s\<lparr>events := events s @ [Call Cpu_percent_percpu]\<rparr>) \<and>
   replace text ''$cpu_percent_per$'' [] = concat (split_on text ''$cpu_percent_per$'') \<and>
   text = join ''$cpu_percent_per$'' (split_on text ''$cpu_percent_per$'') \<and>
   (\<forall>p \<in> set (split_on text ''$cpu_percent_per$''). \<not> contains ''$cpu_percent_per$'' p)"
proof (intro conjI ballI)
  assume c: "contains ''$cpu_percent_per$'' text" and e: "cpu_percent_percpu_result s = Inr []"
  show "get_cpu_usage_per text s =
     (Inr (replace text ''$cpu_percent_per$'' []),
      s\<lparr>events := events s @ [Call Cpu_percent_percpu]\<rparr>)"
    unfolding get_cpu_usage_per_def
    using c cpu_usage_per_status_empty[OF e]
      fill_success[of "''$cpu_percent_per$''" "text" cpu_usage_per_status s "[]"
        "s\<lparr>events := events s @ [Call Cpu_percent_percpu]\<rparr>" "''Get cpu usage per error''"]
    by simp
  show "replace text ''$cpu_percent_per$'' [] = concat (split_on text ''$cpu_percent_per$'')"
    using replace_join_split_on[of "''$cpu_percent_per$''" "text" "[]"]
    by (simp add: join_empty_sep)
  show "text = join ''$cpu_percent_per$'' (split_on text ''$cpu_percent_per$'')"
    using join_split_on[of "''$cpu_percent_per$''" "text"] by simp
  fix p assume "p \<in> set (split_on text ''$cpu_percent_per$'')"
  then show "\<not> contains ''$cpu_percent_per$'' p"
    using split_on_pieces_free[of "''$cpu_percent_per$''" p "text"] by simp
qed

theorem empty_sample_removes_scanned_occurrences_witness:
  "get_cpu_usage_per ''CPU:$cpu_percent_per$;''
     (sample_host\<lparr>cpu_percent_percpu_result := Inr []\<rparr>) =
   (Inr ''CPU:;'',
    sample_host\<lparr>cpu_percent_percpu_result := Inr [], events := [Call Cpu_percent_percpu]\<rparr>)"
proof -
  define h where "h = sample_host\<lparr>cpu_percent_percpu_result := Inr []\<rparr>"
  have e: "cpu_percent_percpu_result h = Inr []" by (simp add: h_def)
  have ev: "events h = []" by (simp add: h_def sample_host_def)
  have c: "contains ''$cpu_percent_per$'' ''CPU:$cpu_percent_per$;''" by simp
  from empty_sample_removes_scanned_occurrences[OF c e] show ?thesis
    unfolding ev by (simp add: h_def)
qed

end
